theory Spec2Isabelle
  imports Main "HOL-Library.Word" "HOL-Library.AList" "HOL-Library.Sublist"
begin

section \<open>The provider registry of the DHT: keys, timestamps, cache and datastore\<close>

text \<open>
  The development follows the second module of \<^verbatim>\<open>rsa-class.ts\<close>: the class
  \<^verbatim>\<open>Providers\<close> and the helper functions \<^verbatim>\<open>makeProviderKey\<close>,
  \<^verbatim>\<open>writeProviderEntry\<close>, \<^verbatim>\<open>parseProviderKey\<close>, \<^verbatim>\<open>loadProviders\<close> and
  \<^verbatim>\<open>readTime\<close>. Asynchronous functions are run to completion one after the other,
  which is what the queue of concurrency 1 does to them; an exception is a value
  \<open>Inl e\<close>, and every operation returns the state it leaves behind, also when it fails.
\<close>

subsection \<open>Identifiers, bytes, dates and errors\<close>

type_synonym bytes = "8 word list"

text \<open>
  A content id and a peer id are opaque. Of a CID the code only uses the base-32 text of
  its multihash bytes, of a peer id only its \<^verbatim>\<open>toString()\<close>; the two datatypes
  carry exactly that text.
\<close>

datatype CID = CID (multihash_base32: string)

datatype PeerId = PeerId (peer_toString: string)

text \<open>The argument of \<^verbatim>\<open>makeProviderKey\<close> has the type \<^verbatim>\<open>CID | string\<close>.\<close>

datatype cid_or_string = OfCID CID | OfString string

text \<open>
  A JavaScript \<^verbatim>\<open>Date\<close> holds a time value: a number of milliseconds, or NaN (an
  invalid date), here \<open>None\<close>. \<^verbatim>\<open>new Date(n)\<close> clips: beyond 8.64e15 ms the date is
  invalid. Clock readings and decoded varints are never negative, so time values are
  naturals; differences are taken in \<open>int\<close>.
\<close>

datatype Date = Date (getTime: "nat option")

definition new_Date :: "nat \<Rightarrow> Date" where
  "new_Date n = (if n > 8640000000000000 then Date None else Date (Some n))"

datatype error =
    BackendFailure string
  | MalformedKey string
  | MalformedRecord
  | InvalidPeerId string

text \<open>
  \<^verbatim>\<open>peerIdFromString\<close> belongs to the package \<^verbatim>\<open>@libp2p/peer-id\<close>, which is not
  among the sources. It is partial, it throws on a text that is not a peer id, and it is
  not injective, one peer has several spellings (base58, CID form). Nothing more is
  fixed here: the decoder of the package is the parameter \<open>dec\<close> of every function
  that calls it, \<open>None\<close> where the package throws.
\<close>

type_synonym decoder = "string \<Rightarrow> PeerId option"

definition peerIdFromString :: "decoder \<Rightarrow> string \<Rightarrow> error + PeerId" where
  "peerIdFromString dec peerIdStr =
     (case dec peerIdStr of None \<Rightarrow> Inl (InvalidPeerId peerIdStr) | Some peer \<Rightarrow> Inr peer)"

text \<open>
  \<^verbatim>\<open>keys.map(peerIdStr => peerIdFromString(peerIdStr))\<close>: the first text that does not
  decode ends the map with its error.
\<close>

fun map_peerIdFromString :: "decoder \<Rightarrow> string list \<Rightarrow> error + PeerId list" where
  "map_peerIdFromString dec [] = Inr []"
| "map_peerIdFromString dec (peerIdStr # keys) =
     (case peerIdFromString dec peerIdStr of
        Inl e \<Rightarrow> Inl e
      | Inr peer \<Rightarrow>
          (case map_peerIdFromString dec keys of
             Inl e \<Rightarrow> Inl e
           | Inr peers \<Rightarrow> Inr (peer # peers)))"

subsection \<open>Timestamp values: unsigned varints\<close>

text \<open>
  Modelled from the spec: the package \<^verbatim>\<open>varint\<close> is not among the sources. The value
  of a record is the LEB128 unsigned varint of the milliseconds: seven bits a byte, least
  significant group first, the top bit set on every byte but the last.
\<close>

function varint_encode :: "nat \<Rightarrow> bytes" where
  "varint_encode num =
     (if num \<ge> 128 then of_nat (num mod 128 + 128) # varint_encode (num div 128)
      else [of_nat num])"
  by pat_completeness auto
termination
  by (relation "measure id") auto

text \<open>
  Modelled from the spec: decoding is the inverse and fails on truncation (the buffer
  ends before a byte without the top bit) or overflow (a ninth group, past shift 49).
  Bytes after the final one are ignored.
\<close>

fun varint_read :: "bytes \<Rightarrow> nat \<Rightarrow> nat \<Rightarrow> error + nat" where
  "varint_read [] shift res = Inl MalformedRecord"
| "varint_read (b # buf) shift res =
     (if shift > 49 then Inl MalformedRecord
      else let res' = res + (unat b mod 128) * 2 ^ shift
           in if unat b \<ge> 128 then varint_read buf (shift + 7) res' else Inr res')"

definition varint_decode :: "bytes \<Rightarrow> error + nat" where
  "varint_decode buf = varint_read buf 0 0"

text \<open>\<^verbatim>\<open>readTime\<close>: \<^verbatim>\<open>new Date(varint.decode(buf))\<close>.\<close>

definition readTime :: "bytes \<Rightarrow> error + Date" where
  "readTime buf = (case varint_decode buf of Inl e \<Rightarrow> Inl e | Inr n \<Rightarrow> Inr (new_Date n))"

text \<open>
  \<^verbatim>\<open>varint.encode(time.getTime())\<close>: an invalid date has the time NaN, which every
  comparison and bit operation of the encoder treats as 0.
\<close>

definition encode_time :: "Date \<Rightarrow> bytes" where
  "encode_time time = (case getTime time of None \<Rightarrow> [0] | Some n \<Rightarrow> varint_encode n)"

subsection \<open>Datastore keys\<close>

text \<open>\<^verbatim>\<open>String.prototype.split\<close> on a one-character separator.\<close>

fun split_on :: "char \<Rightarrow> string \<Rightarrow> string list" where
  "split_on c [] = [[]]"
| "split_on c (x # xs) =
     (if x = c then [] # split_on c xs
      else (case split_on c xs of p # ps \<Rightarrow> (x # p) # ps | [] \<Rightarrow> [[x]]))"

text \<open>
  \<^verbatim>\<open>PROVIDER_KEY_PREFIX\<close> comes from \<^verbatim>\<open>constants.js\<close>, which is not among the
  sources: it is the parameter \<open>pfx\<close> of every function that uses it. A datastore key
  is modelled by its string.
\<close>

definition makeProviderKey :: "string \<Rightarrow> cid_or_string \<Rightarrow> string" where
  "makeProviderKey pfx cid =
     (let cidStr = (case cid of OfString s \<Rightarrow> s | OfCID c \<Rightarrow> multihash_base32 c)
      in pfx @ ''/'' @ cidStr)"

definition providerEntryKey :: "string \<Rightarrow> CID \<Rightarrow> PeerId \<Rightarrow> string" where
  "providerEntryKey pfx cid peer =
     concat [makeProviderKey pfx (OfCID cid), ''/'', peer_toString peer]"

definition parseProviderKey :: "string \<Rightarrow> error + (string \<times> string)" where
  "parseProviderKey key =
     (let parts = split_on (CHR ''/'') key
      in if length parts \<noteq> 5 then Inl (MalformedKey key)
         else Inr (parts ! 3, parts ! 4))"

subsection \<open>The cache\<close>

text \<open>
  Modelled from the spec: the package \<^verbatim>\<open>hashlru\<close> is not among the sources. The cache
  is a bounded LRU whose capacity is fixed at construction: \<open>get\<close> answers
  \<open>None\<close> for a key that is not cached and touches the recency of one that is;
  \<open>set\<close> inserts or replaces and evicts the least recently used entry on overflow;
  \<open>remove\<close> drops the key. The list is ordered by recency, most recent first.
\<close>

type_synonym ('k, 'v) lru = "('k \<times> 'v) list"

definition lru_get :: "'k \<Rightarrow> ('k, 'v) lru \<Rightarrow> 'v option \<times> ('k, 'v) lru" where
  "lru_get k c =
     (case map_of c k of
        None \<Rightarrow> (None, c)
      | Some v \<Rightarrow> (Some v, (k, v) # AList.delete k c))"

definition lru_set :: "nat \<Rightarrow> 'k \<Rightarrow> 'v \<Rightarrow> ('k, 'v) lru \<Rightarrow> ('k, 'v) lru" where
  "lru_set capacity k v c = take capacity ((k, v) # AList.delete k c)"

definition lru_remove :: "'k \<Rightarrow> ('k, 'v) lru \<Rightarrow> ('k, 'v) lru" where
  "lru_remove k c = AList.delete k c"

subsection \<open>The state of a \<^verbatim>\<open>Providers\<close> object and of its surroundings\<close>

text \<open>
  A \<^verbatim>\<open>Map<string, Date>\<close> is an association list in insertion order:
  \<^verbatim>\<open>Map.set\<close> is \<^const>\<open>AList.update\<close> (an existing key keeps its place, a new one
  goes last), \<^verbatim>\<open>Map.delete\<close> is \<^const>\<open>AList.delete\<close>.

  The record holds the fields of the class that the operations read or write, and the
  three things outside it that they act on: the contents of the datastore, the outcomes of
  the successive datastore calls (\<open>Some cause\<close>: the call fails with that cause), and
  the successive readings of the wall clock.
\<close>

type_synonym provs = "(string \<times> Date) list"

record Providers =
  datastore :: "(string \<times> bytes) list"
  faults :: "nat \<Rightarrow> string option"
  clock :: "nat \<Rightarrow> nat"
  cache :: "(string, provs) lru"
  cacheSize :: nat
  provideValidity :: int

text \<open>
  The constructor: \<^verbatim>\<open>cacheSize ?? PROVIDERS_LRU_CACHE_SIZE\<close> and
  \<^verbatim>\<open>provideValidity ?? PROVIDERS_VALIDITY\<close>; the two defaults are constants of
  \<^verbatim>\<open>constants.js\<close> and come as parameters. The cache starts empty.
\<close>

definition Providers_new ::
  "nat \<Rightarrow> int \<Rightarrow> (string \<times> bytes) list \<Rightarrow> (nat \<Rightarrow> string option) \<Rightarrow> (nat \<Rightarrow> nat)
   \<Rightarrow> nat option \<Rightarrow> int option \<Rightarrow> Providers" where
  "Providers_new default_cache_size default_validity store fs clk init_cacheSize init_provideValidity =
     \<lparr> datastore = store, faults = fs, clock = clk, cache = [],
       cacheSize = (case init_cacheSize of None \<Rightarrow> default_cache_size | Some n \<Rightarrow> n),
       provideValidity = (case init_provideValidity of None \<Rightarrow> default_validity | Some v \<Rightarrow> v) \<rparr>"

text \<open>\<^verbatim>\<open>Date.now()\<close> takes the next reading of a clock.\<close>

definition next_reading :: "(nat \<Rightarrow> nat) \<Rightarrow> nat \<times> (nat \<Rightarrow> nat)" where
  "next_reading clk = (clk 0, \<lambda>n. clk (Suc n))"

definition Date_now :: "Providers \<Rightarrow> nat \<times> Providers" where
  "Date_now s = (let (now, clk) = next_reading (clock s) in (now, s\<lparr>clock := clk\<rparr>))"

subsection \<open>The datastore\<close>

text \<open>
  Modelled from the spec: the datastore is a collaborator outside the sources. It offers
  \<open>put\<close>, a query by key prefix, and a batch of deletes that is committed atomically;
  any call can fail, and the failure reaches the caller with its cause. A query that
  fails is taken to fail as a whole: what the loops did with the entries before the
  failure is lost with their local variables.
\<close>

definition next_fault :: "Providers \<Rightarrow> string option \<times> Providers" where
  "next_fault s = (faults s 0, s\<lparr>faults := \<lambda>n. faults s (Suc n)\<rparr>)"

definition store_put :: "string \<Rightarrow> bytes \<Rightarrow> Providers \<Rightarrow> (error + unit) \<times> Providers" where
  "store_put key val s =
     (case next_fault s of
        (Some cause, s') \<Rightarrow> (Inl (BackendFailure cause), s')
      | (None, s') \<Rightarrow> (Inr (), s'\<lparr>datastore := AList.update key val (datastore s')\<rparr>))"

definition store_query ::
  "string \<Rightarrow> Providers \<Rightarrow> (error + (string \<times> bytes) list) \<times> Providers" where
  "store_query p s =
     (case next_fault s of
        (Some cause, s') \<Rightarrow> (Inl (BackendFailure cause), s')
      | (None, s') \<Rightarrow> (Inr (filter (\<lambda>(key, val). prefix p key) (datastore s')), s'))"

definition batch_commit :: "string list \<Rightarrow> Providers \<Rightarrow> (error + unit) \<times> Providers" where
  "batch_commit batch s =
     (case next_fault s of
        (Some cause, s') \<Rightarrow> (Inl (BackendFailure cause), s')
      | (None, s') \<Rightarrow>
          (Inr (), s'\<lparr>datastore := filter (\<lambda>(key, val). key \<notin> set batch) (datastore s')\<rparr>))"

subsection \<open>Reading and writing provider entries\<close>

text \<open>\<^verbatim>\<open>writeProviderEntry\<close>\<close>

definition writeProviderEntry ::
  "string \<Rightarrow> CID \<Rightarrow> PeerId \<Rightarrow> Date \<Rightarrow> Providers \<Rightarrow> (error + unit) \<times> Providers" where
  "writeProviderEntry pfx cid peer time s =
     (let key = providerEntryKey pfx cid peer;
          buffer = encode_time time
      in store_put key buffer s)"

text \<open>
  \<^verbatim>\<open>loadProviders\<close>: the loop over the entries of the query has no handler, so the
  error of \<^verbatim>\<open>parseProviderKey\<close> or of \<^verbatim>\<open>readTime\<close> leaves the function.
\<close>

fun load_entries :: "(string \<times> bytes) list \<Rightarrow> provs \<Rightarrow> error + provs" where
  "load_entries [] providers = Inr providers"
| "load_entries ((key, val) # es) providers =
     (case parseProviderKey key of
        Inl e \<Rightarrow> Inl e
      | Inr (cid, peerId) \<Rightarrow>
          (case readTime val of
             Inl e \<Rightarrow> Inl e
           | Inr time \<Rightarrow> load_entries es (AList.update peerId time providers)))"

definition loadProviders :: "string \<Rightarrow> CID \<Rightarrow> Providers \<Rightarrow> (error + provs) \<times> Providers" where
  "loadProviders pfx cid s =
     (case store_query (makeProviderKey pfx (OfCID cid)) s of
        (Inl e, s') \<Rightarrow> (Inl e, s')
      | (Inr es, s') \<Rightarrow> (load_entries es [], s'))"

subsection \<open>The operations of the class\<close>

text \<open>\<^verbatim>\<open>_getProvidersMap\<close>\<close>

definition getProvidersMap :: "string \<Rightarrow> CID \<Rightarrow> Providers \<Rightarrow> (error + provs) \<times> Providers" where
  "getProvidersMap pfx cid s =
     (let cacheKey = makeProviderKey pfx (OfCID cid)
      in case lru_get cacheKey (cache s) of
           (Some provs, c) \<Rightarrow> (Inr provs, s\<lparr>cache := c\<rparr>)
         | (None, c) \<Rightarrow>
             (case loadProviders pfx cid (s\<lparr>cache := c\<rparr>) of
                (Inl e, s') \<Rightarrow> (Inl e, s')
              | (Inr provs, s') \<Rightarrow>
                  (Inr provs, s'\<lparr>cache := lru_set (cacheSize s') cacheKey provs (cache s')\<rparr>)))"

text \<open>
  \<^verbatim>\<open>addProvider\<close>: the map is updated and put back into the cache before the entry is
  written to the datastore.
\<close>

definition addProvider ::
  "string \<Rightarrow> CID \<Rightarrow> PeerId \<Rightarrow> Providers \<Rightarrow> (error + unit) \<times> Providers" where
  "addProvider pfx cid provider s =
     (case getProvidersMap pfx cid s of
        (Inl e, s1) \<Rightarrow> (Inl e, s1)
      | (Inr provs, s1) \<Rightarrow>
          (let (t, s2) = Date_now s1;
               now = Date (Some t);
               provs' = AList.update (peer_toString provider) now provs;
               dsKey = makeProviderKey pfx (OfCID cid);
               s3 = s2\<lparr>cache := lru_set (cacheSize s2) dsKey provs' (cache s2)\<rparr>
           in writeProviderEntry pfx cid provider now s3))"

text \<open>\<^verbatim>\<open>getProviders\<close>\<close>

definition getProviders ::
  "decoder \<Rightarrow> string \<Rightarrow> CID \<Rightarrow> Providers \<Rightarrow> (error + PeerId list) \<times> Providers" where
  "getProviders dec pfx cid s =
     (case getProvidersMap pfx cid s of
        (Inl e, s1) \<Rightarrow> (Inl e, s1)
      | (Inr provs, s1) \<Rightarrow> (map_peerIdFromString dec (map fst provs), s1))"

text \<open>
  \<^verbatim>\<open>_cleanup\<close>. A \<^verbatim>\<open>Set<string>\<close> is a list without repetition in insertion
  order. The body of the loop is inside \<^verbatim>\<open>try\<close>: an entry whose key or value does
  not parse is logged and skipped, before the clock is read for it.
\<close>

definition set_add :: "'a \<Rightarrow> 'a list \<Rightarrow> 'a list" where
  "set_add x xs = (if x \<in> set xs then xs else xs @ [x])"

text \<open>
  The body of the loop over the entries of the query, on the local variables
  \<^verbatim>\<open>batch\<close> (the keys staged for deletion) and \<^verbatim>\<open>deleted\<close> and on the clock.
\<close>

definition cleanup_entry ::
  "int \<Rightarrow> string \<times> bytes
   \<Rightarrow> string list \<times> (string \<times> string list) list \<times> (nat \<Rightarrow> nat)
   \<Rightarrow> string list \<times> (string \<times> string list) list \<times> (nat \<Rightarrow> nat)" where
  "cleanup_entry validity entry acc =
     (case entry of (key, val) \<Rightarrow>
      case acc of (batch, deleted, clk) \<Rightarrow>
        (case parseProviderKey key of
           Inl e \<Rightarrow> acc
         | Inr (cid, peerId) \<Rightarrow>
             (case readTime val of
                Inl e \<Rightarrow> acc
              | Inr d \<Rightarrow>
                  (let (now, clk') = next_reading clk;
                       expired = (case getTime d of
                                    None \<Rightarrow> False
                                  | Some time \<Rightarrow> int now - int time > validity)
                   in if expired
                      then (batch @ [key],
                            AList.update cid
                              (set_add peerId
                                 (case map_of deleted cid of None \<Rightarrow> [] | Some peers \<Rightarrow> peers))
                              deleted,
                            clk')
                      else (batch, deleted, clk')))))"

text \<open>The body of the loop that clears the expired entries from the cache.\<close>

definition clear_expired ::
  "string \<Rightarrow> nat \<Rightarrow> string \<times> string list \<Rightarrow> (string, provs) lru \<Rightarrow> (string, provs) lru" where
  "clear_expired pfx capacity entry c =
     (case entry of (cid, peers) \<Rightarrow>
        (let key = makeProviderKey pfx (OfString cid)
         in case lru_get key c of
              (None, c') \<Rightarrow> c'
            | (Some provs, c') \<Rightarrow>
                (let provs' = fold AList.delete peers provs
                 in if length provs' = 0 then lru_remove key c'
                    else lru_set capacity key provs' c')))"

definition cleanup :: "string \<Rightarrow> Providers \<Rightarrow> (error + unit) \<times> Providers" where
  "cleanup pfx s =
     (let (start, s0) = Date_now s
      in case store_query pfx s0 of
           (Inl e, s1) \<Rightarrow> (Inl e, s1)
         | (Inr es, s1) \<Rightarrow>
             (let (batch, deleted, clk) =
                    fold (cleanup_entry (provideValidity s1)) es ([], [], clock s1);
                  s2 = s1\<lparr>clock := clk\<rparr>
              in case (if length deleted > 0 then batch_commit batch s2 else (Inr (), s2)) of
                   (Inl e, s3) \<Rightarrow> (Inl e, s3)
                 | (Inr u, s3) \<Rightarrow>
                     (let s4 = s3\<lparr>cache := fold (clear_expired pfx (cacheSize s3)) deleted (cache s3)\<rparr>;
                          (finish, s5) = Date_now s4
                      in (Inr (), s5))))"

subsection \<open>Sequences of operations\<close>

text \<open>
  The queue admits one operation at a time, in the order of submission; a failed
  operation leaves the state it reached and the next one runs from there.
\<close>

datatype operation = AddProvider CID PeerId | GetProviders CID | Cleanup

datatype outcome = Done | Found "PeerId list"

definition step ::
  "decoder \<Rightarrow> string \<Rightarrow> operation \<Rightarrow> Providers \<Rightarrow> (error + outcome) \<times> Providers" where
  "step dec pfx operation s =
     (case operation of
        AddProvider cid peer \<Rightarrow>
          (case addProvider pfx cid peer s of (r, s') \<Rightarrow> (map_sum id (\<lambda>u. Done) r, s'))
      | GetProviders cid \<Rightarrow>
          (case getProviders dec pfx cid s of (r, s') \<Rightarrow> (map_sum id Found r, s'))
      | Cleanup \<Rightarrow>
          (case cleanup pfx s of (r, s') \<Rightarrow> (map_sum id (\<lambda>u. Done) r, s')))"

fun run ::
  "decoder \<Rightarrow> string \<Rightarrow> operation list \<Rightarrow> Providers \<Rightarrow> (error + outcome) list \<times> Providers"
  where
  "run dec pfx [] s = ([], s)"
| "run dec pfx (operation # ops) s =
     (case step dec pfx operation s of
        (r, s') \<Rightarrow> (case run dec pfx ops s' of (rs, s'') \<Rightarrow> (r # rs, s'')))"

subsection \<open>A registry for the examples\<close>

definition dht :: string where "dht = ''/dht/provider''"

text \<open>
  A decoder for the examples: the empty text is no peer id, and a text that starts with
  \<^verbatim>\<open>bafz\<close> is a second spelling of the peer named by the rest.
\<close>

definition example_decoder :: decoder where
  "example_decoder text =
     (if text = [] then None
      else if take 4 text = ''bafz'' then Some (PeerId (drop 4 text))
      else Some (PeerId text))"

definition registry :: "nat \<Rightarrow> int \<Rightarrow> (string \<times> bytes) list \<Rightarrow> Providers" where
  "registry n v store = Providers_new 256 86400000 store (\<lambda>k. None) (\<lambda>k. 1000 * k) (Some n) (Some v)"

subsection \<open>Invariants of the cache\<close>

definition cache_bounded :: "Providers \<Rightarrow> bool" where
  "cache_bounded s \<longleftrightarrow> length (cache s) \<le> cacheSize s"

definition distinct_maps :: "(string, provs) lru \<Rightarrow> bool" where
  "distinct_maps c \<longleftrightarrow> (\<forall>(k, provs) \<in> set c. distinct (map fst provs))"

definition written :: "string \<Rightarrow> CID \<Rightarrow> PeerId \<Rightarrow> Providers \<Rightarrow> bool" where
  "written pfx cid peer s \<longleftrightarrow>
     providerEntryKey pfx cid peer \<in> fst ` set (datastore s)
     \<and> (\<forall>provs. map_of (cache s) (makeProviderKey pfx (OfCID cid)) = Some provs
           \<longrightarrow> peer_toString peer \<in> fst ` set provs)"

definition readable :: "string \<times> bytes \<Rightarrow> bool" where
  "readable entry =
     (case entry of (key, val) \<Rightarrow>
        (case parseProviderKey key of
           Inl e \<Rightarrow> False
         | Inr parsed \<Rightarrow> (case readTime val of Inl e \<Rightarrow> False | Inr time \<Rightarrow> True)))"

definition deleted_peers :: "(string \<times> string list) list \<Rightarrow> string \<Rightarrow> string list" where
  "deleted_peers deleted cid = (case map_of deleted cid of None \<Rightarrow> [] | Some peers \<Rightarrow> peers)"

definition staged :: "string list \<Rightarrow> (string \<times> string list) list \<Rightarrow> bool" where
  "staged batch deleted \<longleftrightarrow>
     distinct (map fst deleted)
     \<and> (\<forall>key \<in> set batch. \<exists>c p. parseProviderKey key = Inr (c, p))
     \<and> (\<forall>c p. p \<in> set (deleted_peers deleted c)
               \<longleftrightarrow> (\<exists>key \<in> set batch. parseProviderKey key = Inr (c, p)))"

definition sweep_example :: Providers where
  "sweep_example =
     (registry 2 500 [(''/dht/provider/ca/p1'', [0]), (''/dht/provider/ca/p2'', [196, 19])])
       \<lparr>cache := [(''/dht/provider/ca'', [(''p1'', Date (Some 0)), (''p2'', Date (Some 2500))])]\<rparr>"

subsection \<open>Canonical peer texts\<close>

text \<open>
  A text is canonical when it decodes to the peer whose \<^verbatim>\<open>toString()\<close> it is: the
  text that \<open>writeProviderEntry\<close> puts in a key and \<open>addProvider\<close> in a map. The
  datastore is canonical when the peer text of every key that parses is, the cache when
  every text of its maps is, and an \<open>addProvider\<close> when the text of its peer is (and, as
  a part of a key, holds no separator).
\<close>

definition canonical_text :: "decoder \<Rightarrow> string \<Rightarrow> bool" where
  "canonical_text dec text \<longleftrightarrow> dec text = Some (PeerId text)"

definition canonical_store :: "decoder \<Rightarrow> (string \<times> bytes) list \<Rightarrow> bool" where
  "canonical_store dec ds \<longleftrightarrow>
     (\<forall>(key, val) \<in> set ds.
        case parseProviderKey key of
          Inl e \<Rightarrow> True
        | Inr (cid, peerId) \<Rightarrow> canonical_text dec peerId)"

definition canonical_maps :: "decoder \<Rightarrow> (string, provs) lru \<Rightarrow> bool" where
  "canonical_maps dec c \<longleftrightarrow>
     (\<forall>(k, provs) \<in> set c. \<forall>text \<in> fst ` set provs. canonical_text dec text)"

fun canonical_operation :: "decoder \<Rightarrow> operation \<Rightarrow> bool" where
  "canonical_operation dec (AddProvider cid peer) \<longleftrightarrow>
     canonical_text dec (peer_toString peer) \<and> CHR ''/'' \<notin> set (peer_toString peer)"
| "canonical_operation dec (GetProviders cid) \<longleftrightarrow> True"
| "canonical_operation dec Cleanup \<longleftrightarrow> True"

definition canonical_registry :: "decoder \<Rightarrow> Providers \<Rightarrow> bool" where
  "canonical_registry dec s \<longleftrightarrow>
     canonical_store dec (datastore s) \<and> canonical_maps dec (cache s)"

text \<open>Two registries that start with a record of the peer \<open>p0\<close> for the CID \<open>ca\<close>.\<close>

definition canonical_example :: Providers where
  "canonical_example = registry 2 1000 [(''/dht/provider/ca/p0'', [232, 7])]"

definition stored_example :: Providers where
  "stored_example = registry 1 1000 [(''/dht/provider/ca/p0'', [232, 7])]"

subsection \<open>Coherence of the cache with the datastore\<close>

text \<open>
  A cached map is in step with the datastore when loading the records under its key
  succeeds and gives the entries of the map; the registry is coherent when every cached
  map is in step.
\<close>

definition in_step :: "(string \<times> bytes) list \<Rightarrow> string \<times> provs \<Rightarrow> bool" where
  "in_step ds entry =
     (case entry of (cacheKey, provs) \<Rightarrow>
        (case load_entries (filter (\<lambda>(key, val). prefix cacheKey key) ds) [] of
           Inl e \<Rightarrow> False
         | Inr loaded \<Rightarrow> set loaded = set provs))"

definition coherent :: "Providers \<Rightarrow> bool" where
  "coherent s = list_all (in_step (datastore s)) (cache s)"

text \<open>
  The shape of the keys that \<open>writeProviderEntry\<close> writes, for CID texts of one length
  \<open>n\<close>: the prefix, the CID text and the peer text, neither of them with a separator.
  What a readable record parses to.
\<close>

definition wf_cid :: "nat \<Rightarrow> string \<Rightarrow> bool" where
  "wf_cid n c \<longleftrightarrow> length c = n \<and> CHR ''/'' \<notin> set c"

definition wf_key :: "nat \<Rightarrow> string \<Rightarrow> string \<Rightarrow> bool" where
  "wf_key n pfx key \<longleftrightarrow>
     (\<exists>c p. key = pfx @ ''/'' @ c @ ''/'' @ p \<and> wf_cid n c \<and> CHR ''/'' \<notin> set p)"

definition key_peer :: "string \<Rightarrow> string" where
  "key_peer key = (case parseProviderKey key of Inl e \<Rightarrow> [] | Inr (c, p) \<Rightarrow> p)"

definition val_date :: "bytes \<Rightarrow> Date" where
  "val_date val = (case readTime val of Inl e \<Rightarrow> Date None | Inr d \<Rightarrow> d)"

definition parsed :: "(string \<times> bytes) list \<Rightarrow> provs" where
  "parsed es = map (\<lambda>(key, val). (key_peer key, val_date val)) es"

definition store_wf :: "nat \<Rightarrow> string \<Rightarrow> (string \<times> bytes) list \<Rightarrow> bool" where
  "store_wf n pfx ds \<longleftrightarrow>
     distinct (map fst ds) \<and> (\<forall>(key, val) \<in> set ds. prefix pfx key \<longrightarrow> wf_key n pfx key)"

definition cache_wf :: "nat \<Rightarrow> string \<Rightarrow> (string, provs) lru \<Rightarrow> bool" where
  "cache_wf n pfx c \<longleftrightarrow>
     distinct (map fst c)
     \<and> (\<forall>(cacheKey, provs) \<in> set c.
           (\<exists>cid. wf_cid n cid \<and> cacheKey = pfx @ ''/'' @ cid) \<and> distinct (map fst provs))"

definition registry_inv :: "nat \<Rightarrow> string \<Rightarrow> Providers \<Rightarrow> bool" where
  "registry_inv n pfx s \<longleftrightarrow>
     store_wf n pfx (datastore s)
     \<and> length (cache s) \<le> cacheSize s
     \<and> cache_wf n pfx (cache s)
     \<and> (\<forall>i. clock s i \<le> 8640000000000000)
     \<and> coherent s"

fun wf_operation :: "nat \<Rightarrow> operation \<Rightarrow> bool" where
  "wf_operation n (AddProvider cid peer) \<longleftrightarrow>
     wf_cid n (multihash_base32 cid) \<and> CHR ''/'' \<notin> set (peer_toString peer)"
| "wf_operation n (GetProviders cid) \<longleftrightarrow> wf_cid n (multihash_base32 cid)"
| "wf_operation n Cleanup \<longleftrightarrow> True"

fun adds_completed :: "operation list \<Rightarrow> (error + outcome) list \<Rightarrow> bool" where
  "adds_completed (AddProvider cid peer # ops) (r # rs) \<longleftrightarrow>
     (case r of Inl e \<Rightarrow> False | Inr x \<Rightarrow> True) \<and> adds_completed ops rs"
| "adds_completed (operation # ops) (r # rs) \<longleftrightarrow> adds_completed ops rs"
| "adds_completed ops rs \<longleftrightarrow> True"



definition coherence_example :: "operation list" where
  "coherence_example =
     [AddProvider (CID ''ca'') (PeerId ''p1''), Cleanup,
      AddProvider (CID ''ca'') (PeerId ''p2''), GetProviders (CID ''ca''),
      AddProvider (CID ''cb'') (PeerId ''p1''), Cleanup]"

definition coherence_registry :: Providers where
  "coherence_registry = (registry 2 4000 [])\<lparr>clock := (\<lambda>k. 1000 * min k 50)\<rparr>"

section \<open>Properties of the codec\<close>

lemma unat_of_nat_u8: "unat (of_nat n :: 8 word) = n mod 256"
  by (simp add: unat_of_nat)

lemma varint_read_encode:
  "num < 128 ^ (8 - k) \<Longrightarrow> k \<le> 7 \<Longrightarrow>
   varint_read (varint_encode num) (7 * k) res = Inr (res + num * 2 ^ (7 * k))"
proof (induction num arbitrary: k res rule: varint_encode.induct)
  case (1 num)
  show ?case
  proof (cases "num \<ge> 128")
    case False
    then have "varint_encode num = [of_nat num]"
      by (subst varint_encode.simps) simp
    with False "1.prems" show ?thesis
      by (simp add: unat_of_nat_u8)
  next
    case True
    have enc: "varint_encode num = of_nat (num mod 128 + 128) # varint_encode (num div 128)"
      using True by (subst varint_encode.simps) simp
    have "unat (of_nat (num mod 128 + 128) :: 8 word) = (num mod 128 + 128) mod 256"
      by (rule unat_of_nat_u8)
    also have "\<dots> = num mod 128 + 128"
    proof -
      have "num mod 128 < 128" by simp
      then have "num mod 128 + 128 < 256" by linarith
      then show ?thesis by (rule mod_less)
    qed
    finally have byte: "unat (of_nat (num mod 128 + 128) :: 8 word) = num mod 128 + 128" .
    have k6: "Suc k \<le> 7"
    proof (rule ccontr)
      assume "\<not> Suc k \<le> 7"
      with "1.prems"(2) have "k = 7" by simp
      with "1.prems"(1) True show False by simp
    qed
    have "num div 128 < 128 ^ (8 - Suc k)"
    proof -
      from k6 have "8 - k = Suc (8 - Suc k)" by simp
      then have "(128::nat) ^ (8 - k) = 128 ^ (8 - Suc k) * 128"
        by simp
      with "1.prems"(1) show ?thesis
        by (simp add: less_mult_imp_div_less)
    qed
    from "1.IH" [OF True this k6]
    have ih: "\<And>r. varint_read (varint_encode (num div 128)) (7 * Suc k) r
                = Inr (r + num div 128 * 2 ^ (7 * Suc k))" .
    have sum: "num mod 128 * 2 ^ (7 * k) + num div 128 * 2 ^ (7 * Suc k) = num * 2 ^ (7 * k)"
    proof -
      have p: "(2::nat) ^ (7 * Suc k) = 128 * 2 ^ (7 * k)"
        by (simp add: power_add)
      have "\<And>a b P :: nat. a * P + b * (128 * P) = (a + b * 128) * P"
        by (simp add: algebra_simps)
      then have "num mod 128 * 2 ^ (7 * k) + num div 128 * (128 * 2 ^ (7 * k))
                 = (num mod 128 + num div 128 * 128) * 2 ^ (7 * k)" .
      also have "num mod 128 + num div 128 * 128 = num" by simp
      finally show ?thesis unfolding p .
    qed
    have step: "7 * k + 7 = 7 * Suc k" by simp
    have le: "\<not> 7 * k > 49" using "1.prems"(2) by simp
    have "varint_read (varint_encode num) (7 * k) res
          = varint_read (varint_encode (num div 128)) (7 * Suc k)
              (res + num mod 128 * 2 ^ (7 * k))"
      unfolding enc varint_read.simps byte Let_def step using le by simp
    also have "\<dots> = Inr (res + num mod 128 * 2 ^ (7 * k) + num div 128 * 2 ^ (7 * Suc k))"
      by (rule ih)
    also have "\<dots> = Inr (res + num * 2 ^ (7 * k))"
      using sum by (simp only: add.assoc)
    finally show ?thesis .
  qed
qed

lemma varint_roundtrip: "num < 2 ^ 56 \<Longrightarrow> varint_decode (varint_encode num) = Inr num"
proof -
  assume "num < 2 ^ 56"
  moreover have "(2::nat) ^ 56 = 128 ^ (8 - 0)" by simp
  ultimately have "num < 128 ^ (8 - 0)" by (simp only:)
  from varint_read_encode [OF this, of 0] show ?thesis
    by (simp add: varint_decode_def)
qed

lemma readTime_encode:
  "n \<le> 8640000000000000 \<Longrightarrow> readTime (varint_encode n) = Inr (Date (Some n))"
proof -
  assume n: "n \<le> 8640000000000000"
  have "(8640000000000000::nat) < 2 ^ 56" by simp
  with n have "n < 2 ^ 56" by (rule le_less_trans)
  then have "varint_decode (varint_encode n) = Inr n"
    by (rule varint_roundtrip)
  moreover from n have "new_Date n = Date (Some n)"
    unfolding new_Date_def by (simp only: not_less [symmetric] if_False)
  ultimately show ?thesis
    by (simp add: readTime_def)
qed

text \<open>
  C9. Timestamp round-trip: for every integer \<open>t\<close> with \<open>0 \<le> t < 2^53\<close>, decoding the
  unsigned varint encoding of \<open>t\<close> returns \<open>t\<close>.
\<close>

theorem timestamp_roundtrip:
  "t < 2 ^ 53 \<Longrightarrow> varint_decode (varint_encode t) = Inr t"
proof -
  assume "t < 2 ^ 53"
  moreover have "(2::nat) ^ 53 < 2 ^ 56" by simp
  ultimately have "t < 2 ^ 56" by (rule less_trans)
  then show ?thesis by (rule varint_roundtrip)
qed

theorem timestamp_roundtrip_witness:
  "(1700000000000::nat) < 2 ^ 53
   \<and> varint_decode (varint_encode 1700000000000) = Inr 1700000000000"
  using timestamp_roundtrip [of 1700000000000] by simp

section \<open>Properties of the keys\<close>

lemma split_on_not_Nil: "split_on c xs \<noteq> []"
  by (induction xs) (auto split: list.splits)

lemma split_on_no_sep: "c \<notin> set xs \<Longrightarrow> split_on c xs = [xs]"
  by (induction xs) auto

lemma split_on_append: "split_on c (xs @ c # ys) = split_on c xs @ split_on c ys"
proof (induction xs)
  case Nil
  show ?case by simp
next
  case (Cons x xs)
  obtain p ps where "split_on c xs = p # ps"
    using split_on_not_Nil [of c xs] by (cases "split_on c xs") auto
  with Cons show ?case by simp
qed

lemma split_entry_key:
  assumes "CHR ''/'' \<notin> set (multihash_base32 cid)" and "CHR ''/'' \<notin> set (peer_toString peer)"
  shows "split_on (CHR ''/'') (providerEntryKey pfx cid peer)
         = split_on (CHR ''/'') pfx @ [multihash_base32 cid, peer_toString peer]"
proof -
  have "providerEntryKey pfx cid peer
        = pfx @ CHR ''/'' # (multihash_base32 cid @ CHR ''/'' # peer_toString peer)"
    by (simp add: providerEntryKey_def makeProviderKey_def)
  then show ?thesis
    using assms by (simp add: split_on_append split_on_no_sep)
qed

text \<open>
  C5. Key round-trip: parsing the key built for a CID and a peer gives back the text of
  the CID and the text of the peer; the key splits on \<open>/\<close> into exactly five parts, with
  the CID at index 3 and the peer at index 4. The key prefix is a parameter: it has to
  split into three parts (a leading \<open>/\<close> and one more), and the two texts hold no \<open>/\<close>.
\<close>

theorem key_roundtrip:
  assumes "length (split_on (CHR ''/'') pfx) = 3"
    and "CHR ''/'' \<notin> set (multihash_base32 cid)"
    and "CHR ''/'' \<notin> set (peer_toString peer)"
  shows "parseProviderKey (providerEntryKey pfx cid peer)
           = Inr (multihash_base32 cid, peer_toString peer)
         \<and> length (split_on (CHR ''/'') (providerEntryKey pfx cid peer)) = 5
         \<and> split_on (CHR ''/'') (providerEntryKey pfx cid peer) ! 3 = multihash_base32 cid
         \<and> split_on (CHR ''/'') (providerEntryKey pfx cid peer) ! 4 = peer_toString peer"
proof -
  have s: "split_on (CHR ''/'') (providerEntryKey pfx cid peer)
           = split_on (CHR ''/'') pfx @ [multihash_base32 cid, peer_toString peer]"
    using assms(2,3) by (rule split_entry_key)
  show ?thesis
    unfolding parseProviderKey_def Let_def s using assms(1) by (simp add: nth_append)
qed

theorem key_roundtrip_witness:
  "length (split_on (CHR ''/'') ''/dht/provider'') = 3
   \<and> CHR ''/'' \<notin> set (multihash_base32 (CID ''ciqbed3k''))
   \<and> CHR ''/'' \<notin> set (peer_toString (PeerId ''QmPeer1''))
   \<and> parseProviderKey (providerEntryKey ''/dht/provider'' (CID ''ciqbed3k'') (PeerId ''QmPeer1''))
       = Inr (''ciqbed3k'', ''QmPeer1'')"
  using key_roundtrip [of "''/dht/provider''" "CID ''ciqbed3k''" "PeerId ''QmPeer1''"]
  by simp

lemma cache_registry: "cache (registry n v store) = []"
  by (simp add: registry_def Providers_new_def)

lemma cacheSize_registry: "cacheSize (registry n v store) = n"
  by (simp add: registry_def Providers_new_def)



section \<open>The lookup through the cache\<close>

lemma getProvidersMap_hit:
  assumes "map_of (cache s) (makeProviderKey pfx (OfCID cid)) = Some provs"
  shows "getProvidersMap pfx cid s
         = (Inr provs, s\<lparr>cache := (makeProviderKey pfx (OfCID cid), provs)
                                  # AList.delete (makeProviderKey pfx (OfCID cid)) (cache s)\<rparr>)"
  using assms by (simp add: getProvidersMap_def lru_get_def Let_def)

lemma getProvidersMap_miss:
  assumes "map_of (cache s) (makeProviderKey pfx (OfCID cid)) = None"
  shows "getProvidersMap pfx cid s
         = (case faults s 0 of
              Some cause \<Rightarrow> (Inl (BackendFailure cause), s\<lparr>faults := \<lambda>n. faults s (Suc n)\<rparr>)
            | None \<Rightarrow>
               (case load_entries
                       (filter (\<lambda>(key, val). prefix (makeProviderKey pfx (OfCID cid)) key) (datastore s)) [] of
                  Inl e \<Rightarrow> (Inl e, s\<lparr>faults := \<lambda>n. faults s (Suc n)\<rparr>)
                | Inr provs \<Rightarrow>
                    (Inr provs,
                     s\<lparr>faults := \<lambda>n. faults s (Suc n),
                       cache := lru_set (cacheSize s) (makeProviderKey pfx (OfCID cid)) provs (cache s)\<rparr>)))"
  using assms
  by (simp add: getProvidersMap_def lru_get_def Let_def loadProviders_def store_query_def
      next_fault_def split: option.splits sum.splits)

section \<open>Decoding the peer texts\<close>

lemma map_peerIdFromString_Inr:
  "map_peerIdFromString dec keys = Inr peers \<longleftrightarrow> map dec keys = map Some peers"
proof (induction keys arbitrary: peers)
  case Nil
  show ?case by auto
next
  case (Cons k keys)
  show ?case
  proof (cases "dec k")
    case None
    then show ?thesis by (cases peers) (simp_all add: peerIdFromString_def)
  next
    case (Some p)
    show ?thesis
    proof (cases peers)
      case Nil
      with Some show ?thesis by (simp add: peerIdFromString_def split: sum.splits)
    next
      case (Cons q qs)
      with Some Cons.IH [of qs, symmetric] show ?thesis
        by (auto simp: peerIdFromString_def split: sum.splits)
    qed
  qed
qed

lemma map_peerIdFromString_Inl:
  "map_peerIdFromString dec keys = Inl e \<Longrightarrow>
   \<exists>text \<in> set keys. dec text = None \<and> e = InvalidPeerId text"
proof (induction keys)
  case Nil
  then show ?case by simp
next
  case (Cons k keys)
  then show ?case
    by (cases "dec k"; cases "map_peerIdFromString dec keys")
       (auto simp: peerIdFromString_def)
qed

lemma map_peerIdFromString_canonical:
  "\<forall>text \<in> set keys. canonical_text dec text \<Longrightarrow>
   map_peerIdFromString dec keys = Inr (map PeerId keys)"
  by (induction keys) (simp_all add: peerIdFromString_def canonical_text_def)

section \<open>The bound of the cache\<close>

lemma length_delete_present:
  "map_of c k = Some v \<Longrightarrow> length (AList.delete k c) < length c"
proof -
  assume "map_of c k = Some v"
  then have "(k, v) \<in> set c" by (rule map_of_SomeD)
  then show ?thesis
    unfolding AList.delete_eq by (intro length_filter_less [of "(k, v)"]) auto
qed

lemma length_delete_le: "length (AList.delete k c) \<le> length c"
  unfolding AList.delete_eq by (rule length_filter_le)

lemma length_lru_get: "length (snd (lru_get k c)) \<le> length c"
  using length_delete_present [of c k]
  by (auto simp: lru_get_def split: option.splits simp: Suc_le_eq)

lemma length_lru_set: "length (lru_set capacity k v c) \<le> capacity"
  by (simp add: lru_set_def)

lemma length_lru_remove: "length (lru_remove k c) \<le> length c"
  by (simp add: lru_remove_def length_delete_le)

lemma length_clear_expired:
  "length c \<le> capacity \<Longrightarrow> length (clear_expired pfx capacity entry c) \<le> capacity"
proof -
  assume c: "length c \<le> capacity"
  obtain cid peers where entry: "entry = (cid, peers)" by (cases entry)
  obtain r c' where g: "lru_get (makeProviderKey pfx (OfString cid)) c = (r, c')"
    by (cases "lru_get (makeProviderKey pfx (OfString cid)) c")
  with length_lru_get [of "makeProviderKey pfx (OfString cid)" c] c
  have c': "length c' \<le> capacity" by simp
  show ?thesis
    using c' length_lru_remove [of "makeProviderKey pfx (OfString cid)" c']
    by (cases r) (simp_all add: clear_expired_def entry g Let_def length_lru_set)
qed

lemma length_fold_clear_expired:
  "length c \<le> capacity \<Longrightarrow> length (fold (clear_expired pfx capacity) deleted c) \<le> capacity"
  by (induction deleted arbitrary: c) (simp_all add: length_clear_expired)

lemma getProvidersMap_bounded:
  assumes "cache_bounded s"
  shows "cache_bounded (snd (getProvidersMap pfx cid s))
         \<and> cacheSize (snd (getProvidersMap pfx cid s)) = cacheSize s"
proof (cases "map_of (cache s) (makeProviderKey pfx (OfCID cid))")
  case None
  show ?thesis
    using assms unfolding getProvidersMap_miss [OF None]
    by (simp add: cache_bounded_def length_lru_set split: option.splits sum.splits)
next
  case (Some provs)
  show ?thesis
    using assms length_delete_present [OF Some] unfolding getProvidersMap_hit [OF Some]
    by (simp add: cache_bounded_def)
qed

lemma addProvider_bounded:
  assumes "cache_bounded s"
  shows "cache_bounded (snd (addProvider pfx cid peer s))
         \<and> cacheSize (snd (addProvider pfx cid peer s)) = cacheSize s"
proof -
  obtain r s1 where g: "getProvidersMap pfx cid s = (r, s1)"
    by (cases "getProvidersMap pfx cid s")
  with getProvidersMap_bounded [OF assms, of pfx cid]
  have s1: "cache_bounded s1" "cacheSize s1 = cacheSize s" by simp_all
  show ?thesis
    using s1
    by (cases r)
       (simp_all add: addProvider_def g Let_def Date_now_def next_reading_def
          writeProviderEntry_def store_put_def next_fault_def cache_bounded_def length_lru_set
          split: option.splits)
qed

lemma getProviders_bounded:
  assumes "cache_bounded s"
  shows "cache_bounded (snd (getProviders dec pfx cid s))
         \<and> cacheSize (snd (getProviders dec pfx cid s)) = cacheSize s"
proof -
  obtain r s1 where g: "getProvidersMap pfx cid s = (r, s1)"
    by (cases "getProvidersMap pfx cid s")
  with getProvidersMap_bounded [OF assms, of pfx cid]
  have s1: "cache_bounded s1" "cacheSize s1 = cacheSize s" by simp_all
  show ?thesis
    using s1 by (cases r) (simp_all add: getProviders_def g)
qed

lemma cleanup_bounded:
  assumes "cache_bounded s"
  shows "cache_bounded (snd (cleanup pfx s)) \<and> cacheSize (snd (cleanup pfx s)) = cacheSize s"
  using assms
  by (simp add: cleanup_def Let_def Date_now_def next_reading_def store_query_def batch_commit_def
      next_fault_def cache_bounded_def length_fold_clear_expired
      split: option.splits prod.splits)

lemma snd_step:
  "snd (step dec pfx (AddProvider cid peer) s) = snd (addProvider pfx cid peer s)"
  "snd (step dec pfx (GetProviders cid) s) = snd (getProviders dec pfx cid s)"
  "snd (step dec pfx Cleanup s) = snd (cleanup pfx s)"
  by (simp_all add: step_def split: prod.splits)

lemma snd_run_Cons:
  "snd (run dec pfx (operation # ops) s) = snd (run dec pfx ops (snd (step dec pfx operation s)))"
  by (simp split: prod.splits)

lemma step_bounded:
  assumes "cache_bounded s"
  shows "cache_bounded (snd (step dec pfx operation s))
         \<and> cacheSize (snd (step dec pfx operation s)) = cacheSize s"
  using addProvider_bounded [OF assms] getProviders_bounded [OF assms] cleanup_bounded [OF assms]
  by (cases operation) (simp_all add: snd_step)

lemma run_bounded:
  "cache_bounded s \<Longrightarrow>
   cache_bounded (snd (run dec pfx ops s)) \<and> cacheSize (snd (run dec pfx ops s)) = cacheSize s"
proof (induction ops arbitrary: s)
  case Nil
  then show ?case by simp
next
  case (Cons operation ops)
  from step_bounded [OF Cons.prems, of dec pfx operation]
  have s': "cache_bounded (snd (step dec pfx operation s))"
    "cacheSize (snd (step dec pfx operation s)) = cacheSize s" by simp_all
  from Cons.IH [OF s'(1)] s'(2) show ?case
    by (simp only: snd_run_Cons)
qed

text \<open>
  C6. Cache bound: from a registry whose cache is empty, as the constructor leaves it,
  after any sequence of operations (so at every point between two of them) the cache
  holds at most \<open>cacheSize\<close> keys, one key for each cached CID.
\<close>

theorem cache_bound:
  assumes "cache s0 = []" and "run dec pfx ops s0 = (rs, s)"
  shows "card (fst ` set (cache s)) \<le> cacheSize s0 \<and> length (cache s) \<le> cacheSize s0"
proof -
  have "cache_bounded s0" using assms(1) by (simp add: cache_bounded_def)
  from run_bounded [OF this, of dec pfx ops] assms(2)
  have len: "length (cache s) \<le> cacheSize s0" by (simp add: cache_bounded_def)
  have "card (fst ` set (cache s)) \<le> card (set (cache s))"
    by (rule card_image_le) simp
  also have "\<dots> \<le> length (cache s)" by (rule card_length)
  finally show ?thesis using len by simp
qed


theorem cache_bound_witness:
  "cache (registry 2 1000 []) = []
   \<and> map fst (cache (snd (run example_decoder dht
        [AddProvider (CID ''ca'') (PeerId ''p1''), AddProvider (CID ''cb'') (PeerId ''p1''),
         AddProvider (CID ''cc'') (PeerId ''p1'')] (registry 2 1000 []))))
       = [''/dht/provider/cc'', ''/dht/provider/cb'']
   \<and> card (fst ` set (cache (snd (run example_decoder dht
        [AddProvider (CID ''ca'') (PeerId ''p1''), AddProvider (CID ''cb'') (PeerId ''p1''),
         AddProvider (CID ''cc'') (PeerId ''p1'')] (registry 2 1000 []))))) \<le> 2"
proof -
  let ?ops = "[AddProvider (CID ''ca'') (PeerId ''p1''), AddProvider (CID ''cb'') (PeerId ''p1''),
         AddProvider (CID ''cc'') (PeerId ''p1'')]"
  have keys: "map fst (cache (snd (run example_decoder dht ?ops (registry 2 1000 []))))
       = [''/dht/provider/cc'', ''/dht/provider/cb'']"
    by code_simp
  from cache_bound [OF cache_registry, of example_decoder dht ?ops 2 1000 "[]"
      "fst (run example_decoder dht ?ops (registry 2 1000 []))" "snd (run example_decoder dht ?ops (registry 2 1000 []))"]
  have "card (fst ` set (cache (snd (run example_decoder dht ?ops (registry 2 1000 []))))) \<le> 2"
    by (simp add: cacheSize_registry)
  with keys show ?thesis by (simp add: cache_registry)
qed



section \<open>No key twice in a map of the cache\<close>

lemma load_entries_distinct:
  "load_entries es providers = Inr provs \<Longrightarrow> distinct (map fst providers) \<Longrightarrow>
   distinct (map fst provs)"
proof (induction es arbitrary: providers)
  case Nil
  then show ?case by simp
next
  case (Cons entry es)
  obtain key val where entry: "entry = (key, val)" by (cases entry)
  from Cons.prems(1) obtain cid peerId time where
    "load_entries es (AList.update peerId time providers) = Inr provs"
    by (auto simp: entry split: sum.splits)
  moreover have "distinct (map fst (AList.update peerId time providers))"
    using Cons.prems(2) by (rule AList.distinct_update)
  ultimately show ?case by (rule Cons.IH)
qed

lemma distinct_fold_delete:
  "distinct (map fst provs) \<Longrightarrow> distinct (map fst (fold AList.delete peers provs))"
  by (induction peers arbitrary: provs) (simp_all add: AList.distinct_delete)

lemma set_delete_subset: "set (AList.delete k c) \<subseteq> set c"
  unfolding AList.delete_eq by (rule filter_is_subset)

lemma distinct_maps_subset: "distinct_maps c \<Longrightarrow> set c' \<subseteq> set c \<Longrightarrow> distinct_maps c'"
  unfolding distinct_maps_def by blast

lemma distinct_maps_lru_get:
  assumes "distinct_maps c" and "lru_get k c = (r, c')"
  shows "distinct_maps c' \<and> (\<forall>provs. r = Some provs \<longrightarrow> distinct (map fst provs))"
proof (cases "map_of c k")
  case None
  with assms show ?thesis by (simp add: lru_get_def)
next
  case (Some v)
  then have "(k, v) \<in> set c" by (rule map_of_SomeD)
  with assms(1) have v: "distinct (map fst v)"
    unfolding distinct_maps_def by blast
  have "set ((k, v) # AList.delete k c) \<subseteq> set c"
    using \<open>(k, v) \<in> set c\<close> set_delete_subset [of k c] by simp
  with assms(1) have "distinct_maps ((k, v) # AList.delete k c)"
    by (rule distinct_maps_subset)
  with assms(2) Some v show ?thesis by (auto simp: lru_get_def)
qed

lemma distinct_maps_lru_set:
  assumes "distinct_maps c" and "distinct (map fst provs)"
  shows "distinct_maps (lru_set capacity k provs c)"
proof -
  have "set (lru_set capacity k provs c) \<subseteq> insert (k, provs) (set c)"
    using set_take_subset [of capacity "(k, provs) # AList.delete k c"] set_delete_subset [of k c]
    by (auto simp: lru_set_def)
  with assms show ?thesis
    unfolding distinct_maps_def by blast
qed

lemma distinct_maps_lru_remove: "distinct_maps c \<Longrightarrow> distinct_maps (lru_remove k c)"
  using set_delete_subset [of k c] by (auto simp: lru_remove_def intro: distinct_maps_subset)

lemma distinct_maps_clear_expired:
  assumes "distinct_maps c"
  shows "distinct_maps (clear_expired pfx capacity entry c)"
proof -
  obtain cid peers where entry: "entry = (cid, peers)" by (cases entry)
  obtain r c' where g: "lru_get (makeProviderKey pfx (OfString cid)) c = (r, c')"
    by (cases "lru_get (makeProviderKey pfx (OfString cid)) c")
  from distinct_maps_lru_get [OF assms g]
  have c': "distinct_maps c'" and r: "\<And>provs. r = Some provs \<Longrightarrow> distinct (map fst provs)"
    by simp_all
  show ?thesis
  proof (cases r)
    case None
    with c' show ?thesis by (simp add: clear_expired_def entry g)
  next
    case (Some provs)
    from r [OF Some] have "distinct (map fst (fold AList.delete peers provs))"
      by (rule distinct_fold_delete)
    with c' Some show ?thesis
      by (simp add: clear_expired_def entry g Let_def distinct_maps_lru_remove distinct_maps_lru_set)
  qed
qed

lemma distinct_maps_fold_clear_expired:
  "distinct_maps c \<Longrightarrow> distinct_maps (fold (clear_expired pfx capacity) deleted c)"
  by (induction deleted arbitrary: c) (simp_all add: distinct_maps_clear_expired)

lemma getProvidersMap_distinct:
  assumes "distinct_maps (cache s)" and "getProvidersMap pfx cid s = (r, s')"
  shows "distinct_maps (cache s') \<and> (\<forall>provs. r = Inr provs \<longrightarrow> distinct (map fst provs))"
proof (cases "map_of (cache s) (makeProviderKey pfx (OfCID cid))")
  case None
  show ?thesis
  proof (cases "faults s 0")
    case (Some cause)
    with assms show ?thesis
      unfolding getProvidersMap_miss [OF None] by auto
  next
    case no_fault: None
    show ?thesis
    proof (cases "load_entries (filter (\<lambda>(key, val). prefix (makeProviderKey pfx (OfCID cid)) key)
                     (datastore s)) []")
      case (Inl e)
      with assms no_fault show ?thesis
        unfolding getProvidersMap_miss [OF None] by auto
    next
      case (Inr provs)
      then have "distinct (map fst provs)"
        by (rule load_entries_distinct) simp
      with assms no_fault Inr show ?thesis
        unfolding getProvidersMap_miss [OF None] by (auto simp: distinct_maps_lru_set)
    qed
  qed
next
  case (Some provs)
  have g: "lru_get (makeProviderKey pfx (OfCID cid)) (cache s)
           = (Some provs, (makeProviderKey pfx (OfCID cid), provs)
                # AList.delete (makeProviderKey pfx (OfCID cid)) (cache s))"
    using Some by (simp add: lru_get_def)
  from distinct_maps_lru_get [OF assms(1) g] assms(2) show ?thesis
    unfolding getProvidersMap_hit [OF Some] by auto
qed

lemma addProvider_distinct:
  assumes "distinct_maps (cache s)"
  shows "distinct_maps (cache (snd (addProvider pfx cid peer s)))"
proof -
  obtain r s1 where g: "getProvidersMap pfx cid s = (r, s1)"
    by (cases "getProvidersMap pfx cid s")
  from getProvidersMap_distinct [OF assms g]
  have s1: "distinct_maps (cache s1)"
    and r: "\<And>provs. r = Inr provs \<Longrightarrow> distinct (map fst provs)" by simp_all
  show ?thesis
  proof (cases r)
    case (Inl e)
    with s1 show ?thesis by (simp add: addProvider_def g)
  next
    case (Inr provs)
    have "distinct (map fst (AList.update (peer_toString peer) (Date (Some (clock s1 0))) provs))"
      using r [OF Inr] by (rule AList.distinct_update)
    with s1 Inr show ?thesis
      by (simp add: addProvider_def g Let_def Date_now_def next_reading_def
          writeProviderEntry_def store_put_def next_fault_def distinct_maps_lru_set
          split: option.splits)
  qed
qed

lemma getProviders_distinct_maps:
  assumes "distinct_maps (cache s)"
  shows "distinct_maps (cache (snd (getProviders dec pfx cid s)))"
proof -
  obtain r s1 where g: "getProvidersMap pfx cid s = (r, s1)"
    by (cases "getProvidersMap pfx cid s")
  from getProvidersMap_distinct [OF assms g] show ?thesis
    by (cases r) (simp_all add: getProviders_def g)
qed

lemma cleanup_distinct:
  assumes "distinct_maps (cache s)"
  shows "distinct_maps (cache (snd (cleanup pfx s)))"
  using assms
  by (simp add: cleanup_def Let_def Date_now_def next_reading_def store_query_def batch_commit_def
      next_fault_def distinct_maps_fold_clear_expired
      split: option.splits prod.splits)

lemma run_distinct:
  "distinct_maps (cache s) \<Longrightarrow> distinct_maps (cache (snd (run dec pfx ops s)))"
proof (induction ops arbitrary: s)
  case Nil
  then show ?case by simp
next
  case (Cons operation ops)
  have "distinct_maps (cache (snd (step dec pfx operation s)))"
    using addProvider_distinct [OF Cons.prems] getProviders_distinct_maps [OF Cons.prems]
      cleanup_distinct [OF Cons.prems]
    by (cases operation) (simp_all add: snd_step)
  then show ?case
    unfolding snd_run_Cons by (rule Cons.IH)
qed

lemmas eval_defs = dht_def registry_def Providers_new_def step_def addProvider_def getProviders_def
  getProvidersMap_def lru_get_def lru_set_def lru_remove_def loadProviders_def store_query_def
  next_fault_def Date_now_def next_reading_def writeProviderEntry_def store_put_def batch_commit_def
  providerEntryKey_def makeProviderKey_def encode_time_def peerIdFromString_def example_decoder_def parseProviderKey_def
  readTime_def varint_decode_def new_Date_def cleanup_def cleanup_entry_def clear_expired_def
  set_add_def Let_def



section \<open>Reading what was written\<close>

lemma getProvidersMap_fields:
  assumes "getProvidersMap pfx cid s = (r, s')"
  shows "datastore s' = datastore s \<and> clock s' = clock s \<and> cacheSize s' = cacheSize s
         \<and> provideValidity s' = provideValidity s"
proof (cases "map_of (cache s) (makeProviderKey pfx (OfCID cid))")
  case None
  from assms show ?thesis
    unfolding getProvidersMap_miss [OF None] by (auto split: option.splits sum.splits)
next
  case (Some provs)
  from assms show ?thesis
    unfolding getProvidersMap_hit [OF Some] by auto
qed

lemma map_of_take_Some: "map_of (take n xs) k = Some v \<Longrightarrow> map_of xs k = Some v"
proof (induction xs arbitrary: n)
  case Nil
  then show ?case by simp
next
  case (Cons x xs)
  then show ?case by (cases n) (auto split: if_splits)
qed

lemma map_of_lru_set:
  "map_of (lru_set capacity k v c) k' = Some w \<Longrightarrow>
   (if k' = k then w = v else map_of c k' = Some w)"
proof -
  assume "map_of (lru_set capacity k v c) k' = Some w"
  then have "map_of ((k, v) # AList.delete k c) k' = Some w"
    unfolding lru_set_def by (rule map_of_take_Some)
  then show ?thesis by (auto simp: AList.delete_conv split: if_splits)
qed

lemma load_entries_keeps:
  "load_entries es providers = Inr provs \<Longrightarrow> p \<in> fst ` set providers \<Longrightarrow> p \<in> fst ` set provs"
proof (induction es arbitrary: providers)
  case Nil
  then show ?case by simp
next
  case (Cons entry es)
  obtain key val where entry: "entry = (key, val)" by (cases entry)
  from Cons.prems(1) obtain cid peerId time where
    "load_entries es (AList.update peerId time providers) = Inr provs"
    by (auto simp: entry split: sum.splits)
  moreover have "p \<in> fst ` set (AList.update peerId time providers)"
    using Cons.prems(2) by (simp add: AList.dom_update)
  ultimately show ?case by (rule Cons.IH)
qed

lemma load_entries_member:
  "load_entries es providers = Inr provs \<Longrightarrow> (key, val) \<in> set es \<Longrightarrow>
   \<exists>c p. parseProviderKey key = Inr (c, p) \<and> p \<in> fst ` set provs"
proof (induction es arbitrary: providers)
  case Nil
  then show ?case by simp
next
  case (Cons entry es)
  obtain key' val' where entry: "entry = (key', val')" by (cases entry)
  from Cons.prems(1) obtain cid peerId time where
    parse: "parseProviderKey key' = Inr (cid, peerId)"
    and rest: "load_entries es (AList.update peerId time providers) = Inr provs"
    by (auto simp: entry split: sum.splits)
  show ?case
  proof (cases "(key, val) = entry")
    case True
    have "peerId \<in> fst ` set (AList.update peerId time providers)"
      by (simp add: AList.dom_update)
    with rest have "peerId \<in> fst ` set provs" by (rule load_entries_keeps)
    with True parse entry show ?thesis by auto
  next
    case False
    with Cons.prems(2) have "(key, val) \<in> set es" by simp
    with rest show ?thesis by (rule Cons.IH)
  qed
qed

lemma parse_entry_key_peer:
  assumes "parseProviderKey (providerEntryKey pfx cid peer) = Inr (c, p)"
    and "CHR ''/'' \<notin> set (peer_toString peer)"
  shows "p = peer_toString peer"
proof -
  have "providerEntryKey pfx cid peer
        = makeProviderKey pfx (OfCID cid) @ CHR ''/'' # peer_toString peer"
    by (simp add: providerEntryKey_def)
  then have s: "split_on (CHR ''/'') (providerEntryKey pfx cid peer)
        = split_on (CHR ''/'') (makeProviderKey pfx (OfCID cid)) @ [peer_toString peer]"
    using assms(2) by (simp add: split_on_append split_on_no_sep)
  from assms(1) have "length (split_on (CHR ''/'') (providerEntryKey pfx cid peer)) = 5"
    and "p = split_on (CHR ''/'') (providerEntryKey pfx cid peer) ! 4"
    by (auto simp: parseProviderKey_def Let_def split: if_splits)
  then show ?thesis
    unfolding s by (simp add: nth_append)
qed

lemma prefix_entry_key: "prefix (makeProviderKey pfx (OfCID cid)) (providerEntryKey pfx cid peer)"
  by (simp add: providerEntryKey_def)

lemma load_finds_written:
  assumes "providerEntryKey pfx cid peer \<in> fst ` set (datastore s)"
    and "CHR ''/'' \<notin> set (peer_toString peer)"
    and "load_entries (filter (\<lambda>(key, val). prefix (makeProviderKey pfx (OfCID cid)) key)
            (datastore s)) [] = Inr provs"
  shows "peer_toString peer \<in> fst ` set provs"
proof -
  let ?es = "filter (\<lambda>(key, val). prefix (makeProviderKey pfx (OfCID cid)) key) (datastore s)"
  from assms(1) obtain val where "(providerEntryKey pfx cid peer, val) \<in> set (datastore s)"
    by auto
  then have mem: "(providerEntryKey pfx cid peer, val) \<in> set ?es"
    by (simp add: prefix_entry_key)
  from load_entries_member [OF assms(3) mem] obtain c p
    where parse: "parseProviderKey (providerEntryKey pfx cid peer) = Inr (c, p)"
      and p: "p \<in> fst ` set provs" by blast
  from parse assms(2) have "p = peer_toString peer" by (rule parse_entry_key_peer)
  with p show ?thesis by simp
qed

lemma makeProviderKey_inj:
  "makeProviderKey pfx (OfCID c') = makeProviderKey pfx (OfCID c) \<Longrightarrow> c' = c"
  by (cases c', cases c) (simp add: makeProviderKey_def)

lemma getProvidersMap_written:
  assumes w: "written pfx cid peer s"
    and slash: "CHR ''/'' \<notin> set (peer_toString peer)"
    and g: "getProvidersMap pfx c' s = (r, s')"
  shows "written pfx cid peer s'
         \<and> (\<forall>provs. r = Inr provs \<longrightarrow> c' = cid \<longrightarrow> peer_toString peer \<in> fst ` set provs)"
proof (cases "map_of (cache s) (makeProviderKey pfx (OfCID c'))")
  case (Some provs')
  from g have r: "r = Inr provs'"
    and s': "s' = s\<lparr>cache := (makeProviderKey pfx (OfCID c'), provs')
                       # AList.delete (makeProviderKey pfx (OfCID c')) (cache s)\<rparr>"
    unfolding getProvidersMap_hit [OF Some] by simp_all
  have hit: "c' = cid \<Longrightarrow> peer_toString peer \<in> fst ` set provs'"
    using w Some by (simp add: written_def)
  have "written pfx cid peer s'"
    using w Some unfolding written_def s'
    by (auto simp: AList.delete_conv dest: makeProviderKey_inj)
  with hit r show ?thesis by simp
next
  case None
  show ?thesis
  proof (cases "faults s 0")
    case (Some cause)
    with g w show ?thesis
      unfolding getProvidersMap_miss [OF None] by (auto simp: written_def)
  next
    case no_fault: None
    show ?thesis
    proof (cases "load_entries (filter (\<lambda>(key, val). prefix (makeProviderKey pfx (OfCID c')) key)
                     (datastore s)) []")
      case (Inl e)
      with g w no_fault show ?thesis
        unfolding getProvidersMap_miss [OF None] by (auto simp: written_def)
    next
      case (Inr provs)
      from g no_fault Inr have r: "r = Inr provs"
        and s': "s' = s\<lparr>faults := \<lambda>n. faults s (Suc n),
                       cache := lru_set (cacheSize s) (makeProviderKey pfx (OfCID c')) provs (cache s)\<rparr>"
        unfolding getProvidersMap_miss [OF None] by simp_all
      have loaded: "peer_toString peer \<in> fst ` set provs" if "c' = cid"
        using w slash Inr that by (auto simp: written_def intro: load_finds_written)
      have "written pfx cid peer s'"
        unfolding written_def s'
      proof (intro conjI allI impI)
        show "providerEntryKey pfx cid peer
              \<in> fst ` set (datastore (s\<lparr>faults := \<lambda>n. faults s (Suc n),
                   cache := lru_set (cacheSize s) (makeProviderKey pfx (OfCID c')) provs (cache s)\<rparr>))"
          using w by (simp add: written_def)
      next
        fix ps
        assume "map_of (cache (s\<lparr>faults := \<lambda>n. faults s (Suc n),
                   cache := lru_set (cacheSize s) (makeProviderKey pfx (OfCID c')) provs (cache s)\<rparr>))
                 (makeProviderKey pfx (OfCID cid)) = Some ps"
        then have m: "map_of (lru_set (cacheSize s) (makeProviderKey pfx (OfCID c')) provs (cache s))
                 (makeProviderKey pfx (OfCID cid)) = Some ps" by simp
        show "peer_toString peer \<in> fst ` set ps"
        proof (cases "makeProviderKey pfx (OfCID cid) = makeProviderKey pfx (OfCID c')")
          case True
          with map_of_lru_set [OF m] have "ps = provs" by simp
          moreover from True have "c' = cid" by (intro makeProviderKey_inj [of pfx]) simp
          ultimately show ?thesis using loaded by simp
        next
          case False
          with map_of_lru_set [OF m] have "map_of (cache s) (makeProviderKey pfx (OfCID cid)) = Some ps"
            by simp
          with w show ?thesis by (simp add: written_def)
        qed
      qed
      with loaded r show ?thesis by simp
    qed
  qed
qed

lemma getProviders_keeps_written:
  assumes "written pfx cid peer s" and "CHR ''/'' \<notin> set (peer_toString peer)"
  shows "written pfx cid peer (snd (getProviders dec pfx c' s))"
proof -
  obtain r s1 where g: "getProvidersMap pfx c' s = (r, s1)"
    by (cases "getProvidersMap pfx c' s")
  from getProvidersMap_written [OF assms g] show ?thesis
    by (cases r) (simp_all add: getProviders_def g)
qed

lemma addProvider_loaded:
  assumes "getProvidersMap pfx cid s = (Inr provs, s1)"
  shows "addProvider pfx cid peer s
         = (case faults s1 0 of
              Some cause \<Rightarrow>
                (Inl (BackendFailure cause),
                 s1\<lparr>clock := \<lambda>n. clock s1 (Suc n),
                    cache := lru_set (cacheSize s1) (makeProviderKey pfx (OfCID cid))
                               (AList.update (peer_toString peer) (Date (Some (clock s1 0))) provs)
                               (cache s1),
                    faults := \<lambda>n. faults s1 (Suc n)\<rparr>)
            | None \<Rightarrow>
                (Inr (),
                 s1\<lparr>clock := \<lambda>n. clock s1 (Suc n),
                    cache := lru_set (cacheSize s1) (makeProviderKey pfx (OfCID cid))
                               (AList.update (peer_toString peer) (Date (Some (clock s1 0))) provs)
                               (cache s1),
                    faults := \<lambda>n. faults s1 (Suc n),
                    datastore := AList.update (providerEntryKey pfx cid peer)
                                   (varint_encode (clock s1 0)) (datastore s1)\<rparr>))"
  by (simp add: addProvider_def assms Let_def Date_now_def next_reading_def
      writeProviderEntry_def store_put_def next_fault_def encode_time_def
      split: option.splits)

lemma addProvider_failed_load:
  assumes "getProvidersMap pfx cid s = (Inl e, s1)"
  shows "addProvider pfx cid peer s = (Inl e, s1)"
  by (simp add: addProvider_def assms)

lemma addProvider_keeps_written:
  assumes "written pfx cid peer s" and "CHR ''/'' \<notin> set (peer_toString peer)"
  shows "written pfx cid peer (snd (addProvider pfx c' p' s))"
proof -
  obtain r s1 where g: "getProvidersMap pfx c' s = (r, s1)"
    by (cases "getProvidersMap pfx c' s")
  from getProvidersMap_written [OF assms g]
  have w1: "written pfx cid peer s1"
    and r: "\<And>provs. r = Inr provs \<Longrightarrow> c' = cid \<Longrightarrow> peer_toString peer \<in> fst ` set provs"
    by simp_all
  show ?thesis
  proof (cases r)
    case (Inl e)
    with w1 show ?thesis by (simp add: addProvider_def g)
  next
    case (Inr provs)
    let ?provs' = "AList.update (peer_toString p') (Date (Some (clock s1 0))) provs"
    let ?c = "lru_set (cacheSize s1) (makeProviderKey pfx (OfCID c')) ?provs' (cache s1)"
    have cache: "peer_toString peer \<in> fst ` set ps"
      if m: "map_of ?c (makeProviderKey pfx (OfCID cid)) = Some ps" for ps
    proof (cases "makeProviderKey pfx (OfCID cid) = makeProviderKey pfx (OfCID c')")
      case True
      with map_of_lru_set [OF m] have "ps = ?provs'" by simp
      moreover from True have "c' = cid" by (intro makeProviderKey_inj [of pfx]) simp
      ultimately show ?thesis using r [OF Inr] by (simp add: AList.dom_update)
    next
      case False
      with map_of_lru_set [OF m] have "map_of (cache s1) (makeProviderKey pfx (OfCID cid)) = Some ps"
        by simp
      with w1 show ?thesis by (simp add: written_def)
    qed
    have store: "providerEntryKey pfx cid peer \<in> fst ` set (datastore s1)"
      using w1 by (simp add: written_def)
    show ?thesis
      using cache store
      unfolding addProvider_loaded [OF g [unfolded Inr]] written_def
      by (cases "faults s1 0") (simp_all add: AList.dom_update)
  qed
qed

lemma run_written:
  "written pfx cid peer s \<Longrightarrow> CHR ''/'' \<notin> set (peer_toString peer) \<Longrightarrow> Cleanup \<notin> set ops \<Longrightarrow>
   written pfx cid peer (snd (run dec pfx ops s))"
proof (induction ops arbitrary: s)
  case Nil
  then show ?case by simp
next
  case (Cons operation ops)
  have "written pfx cid peer (snd (step dec pfx operation s))"
    using Cons.prems addProvider_keeps_written [OF Cons.prems(1,2)] getProviders_keeps_written [OF Cons.prems(1,2)]
    by (cases operation) (simp_all add: snd_step)
  with Cons.prems show ?case
    unfolding snd_run_Cons by (intro Cons.IH) simp_all
qed

lemma addProvider_result:
  assumes "addProvider pfx cid peer s = (Inr u, s')"
  shows "\<exists>provs s1. getProvidersMap pfx cid s = (Inr provs, s1) \<and> faults s1 0 = None
           \<and> datastore s' = AList.update (providerEntryKey pfx cid peer)
                               (varint_encode (clock s 0)) (datastore s)
           \<and> cache s' = lru_set (cacheSize s) (makeProviderKey pfx (OfCID cid))
                           (AList.update (peer_toString peer) (Date (Some (clock s 0))) provs)
                           (cache s1)
           \<and> clock s' = (\<lambda>n. clock s (Suc n))
           \<and> cacheSize s' = cacheSize s \<and> provideValidity s' = provideValidity s"
proof -
  obtain r s1 where g: "getProvidersMap pfx cid s = (r, s1)"
    by (cases "getProvidersMap pfx cid s")
  from assms obtain provs where r: "r = Inr provs"
    by (cases r) (auto simp: addProvider_failed_load g)
  note g = g [unfolded r]
  from getProvidersMap_fields [OF g]
  have f: "datastore s1 = datastore s" "clock s1 = clock s" "cacheSize s1 = cacheSize s"
    "provideValidity s1 = provideValidity s" by simp_all
  let ?s' = "s1\<lparr>clock := \<lambda>n. clock s1 (Suc n),
                    cache := lru_set (cacheSize s1) (makeProviderKey pfx (OfCID cid))
                               (AList.update (peer_toString peer) (Date (Some (clock s1 0))) provs)
                               (cache s1),
                    faults := \<lambda>n. faults s1 (Suc n),
                    datastore := AList.update (providerEntryKey pfx cid peer)
                                   (varint_encode (clock s1 0)) (datastore s1)\<rparr>"
  have res: "fst (addProvider pfx cid peer s) = Inr u" "snd (addProvider pfx cid peer s) = s'"
    by (simp_all add: assms)
  have nf: "faults s1 0 = None"
    using res(1) unfolding addProvider_loaded [OF g] by (cases "faults s1 0") simp_all
  have "s' = snd (addProvider pfx cid peer s)" by (simp only: res(2))
  also have "\<dots> = ?s'"
    unfolding addProvider_loaded [OF g] nf by simp
  finally have "s' = ?s'" .
  then have "datastore s' = datastore ?s'" "cache s' = cache ?s'" "clock s' = clock ?s'"
    "cacheSize s' = cacheSize ?s'" "provideValidity s' = provideValidity ?s'"
    by (simp_all only:)
  then show ?thesis
    by (intro exI [of _ provs] exI [of _ s1]) (simp add: g nf f)
qed

lemma addProvider_writes:
  assumes "addProvider pfx cid peer s = (Inr u, s')"
  shows "written pfx cid peer s'"
proof -
  from addProvider_result [OF assms] obtain provs and s1 :: Providers where
    d: "datastore s' = AList.update (providerEntryKey pfx cid peer)
                               (varint_encode (clock s 0)) (datastore s)"
    and c: "cache s' = lru_set (cacheSize s) (makeProviderKey pfx (OfCID cid))
                           (AList.update (peer_toString peer) (Date (Some (clock s 0))) provs)
                           (cache s1)"
    by blast
  show ?thesis
    unfolding written_def d c
    by (auto simp: AList.dom_update dest!: map_of_lru_set)
qed

lemma map_of_lru_set_same: "0 < capacity \<Longrightarrow> map_of (lru_set capacity k v c) k = Some v"
  by (cases capacity) (simp_all add: lru_set_def)

lemma getProviders_hit:
  assumes "map_of (cache s) (makeProviderKey pfx (OfCID cid)) = Some provs"
  shows "fst (getProviders dec pfx cid s) = map_peerIdFromString dec (map fst provs)"
  by (simp add: getProviders_def getProvidersMap_hit [OF assms])

lemma getProviders_written:
  assumes w: "written pfx cid peer s"
    and slash: "CHR ''/'' \<notin> set (peer_toString peer)"
    and roundtrip: "dec (peer_toString peer) = Some peer"
    and get: "getProviders dec pfx cid s = (Inr peers, s')"
  shows "peer \<in> set peers"
proof -
  obtain r s1 where g: "getProvidersMap pfx cid s = (r, s1)"
    by (cases "getProvidersMap pfx cid s")
  from get obtain provs where r: "r = Inr provs"
    and peers: "map_peerIdFromString dec (map fst provs) = Inr peers"
    by (cases r) (auto simp: getProviders_def g)
  from getProvidersMap_written [OF w slash g] r
  have "peer_toString peer \<in> set (map fst provs)" by simp
  then have "dec (peer_toString peer) \<in> set (map dec (map fst provs))"
    by (simp only: set_map) (rule imageI)
  also from peers have "map dec (map fst provs) = map Some peers"
    by (simp only: map_peerIdFromString_Inr)
  finally show ?thesis by (auto simp: roundtrip)
qed

text \<open>
  C7. Read-after-write: after a completed \<open>addProvider cid peer\<close>, a \<open>getProviders cid\<close>
  that returns has the peer in its list, the text of the peer decoding to the peer. The
  read that follows at once is answered from the cache (if the cache holds anything at
  all): it returns when every text of the cached map is a peer id, and otherwise
  rejects with the text that is not. Every later read that returns lists the peer as
  well, whatever further \<open>addProvider\<close> and \<open>getProviders\<close> calls came in between and
  whether they hit, missed or evicted the entry.
\<close>

theorem read_after_write:
  assumes slash: "CHR ''/'' \<notin> set (peer_toString peer)"
    and roundtrip: "dec (peer_toString peer) = Some peer"
    and add: "addProvider pfx cid peer s = (Inr u, s1)"
  shows "(0 < cacheSize s \<longrightarrow>
            (\<exists>provs. map_of (cache s1) (makeProviderKey pfx (OfCID cid)) = Some provs
               \<and> peer_toString peer \<in> fst ` set provs
               \<and> (case fst (getProviders dec pfx cid s1) of
                     Inr peers \<Rightarrow> peer \<in> set peers \<and> (\<forall>text \<in> fst ` set provs. dec text \<noteq> None)
                   | Inl e \<Rightarrow> \<exists>text \<in> fst ` set provs. dec text = None \<and> e = InvalidPeerId text)))
         \<and> (\<forall>ops rs s2 peers s3.
               run dec pfx ops s1 = (rs, s2) \<longrightarrow> Cleanup \<notin> set ops \<longrightarrow>
               getProviders dec pfx cid s2 = (Inr peers, s3) \<longrightarrow> peer \<in> set peers)"
proof (intro conjI impI allI)
  from add have w1: "written pfx cid peer s1" by (rule addProvider_writes)
  {
    fix ops rs s2 peers s3
    assume ops: "run dec pfx ops s1 = (rs, s2)" "Cleanup \<notin> set ops"
      and get: "getProviders dec pfx cid s2 = (Inr peers, s3)"
    from run_written [OF w1 slash ops(2), where dec = dec] ops(1) have "written pfx cid peer s2" by simp
    from this slash roundtrip get show "peer \<in> set peers" by (rule getProviders_written)
  }
  assume cap: "0 < cacheSize s"
  from addProvider_result [OF add] obtain provs and s' :: Providers where
    c: "cache s1 = lru_set (cacheSize s) (makeProviderKey pfx (OfCID cid))
                           (AList.update (peer_toString peer) (Date (Some (clock s 0))) provs)
                           (cache s')"
    by blast
  let ?provs = "AList.update (peer_toString peer) (Date (Some (clock s 0))) provs"
  have hit: "map_of (cache s1) (makeProviderKey pfx (OfCID cid)) = Some ?provs"
    unfolding c using cap by (rule map_of_lru_set_same)
  have mem: "peer_toString peer \<in> fst ` set ?provs" by (simp add: AList.dom_update)
  have "case fst (getProviders dec pfx cid s1) of
          Inr peers \<Rightarrow> peer \<in> set peers \<and> (\<forall>text \<in> fst ` set ?provs. dec text \<noteq> None)
        | Inl e \<Rightarrow> \<exists>text \<in> fst ` set ?provs. dec text = None \<and> e = InvalidPeerId text"
  proof (cases "fst (getProviders dec pfx cid s1)")
    case (Inl e)
    then have "map_peerIdFromString dec (map fst ?provs) = Inl e"
      by (simp only: getProviders_hit [OF hit])
    from map_peerIdFromString_Inl [OF this] Inl show ?thesis by simp
  next
    case (Inr peers)
    then have get: "getProviders dec pfx cid s1 = (Inr peers, snd (getProviders dec pfx cid s1))"
      by (simp add: prod_eq_iff)
    from w1 slash roundtrip get have "peer \<in> set peers" by (rule getProviders_written)
    moreover from Inr have "map_peerIdFromString dec (map fst ?provs) = Inr peers"
      by (simp only: getProviders_hit [OF hit])
    then have "map dec (map fst ?provs) = map Some peers"
      by (simp only: map_peerIdFromString_Inr)
    then have "dec ` fst ` set ?provs = Some ` set peers"
      by (simp only: set_map [symmetric])
    then have "\<forall>text \<in> fst ` set ?provs. dec text \<noteq> None" by blast
    ultimately show ?thesis using Inr by simp
  qed
  with hit mem
  show "\<exists>provs. map_of (cache s1) (makeProviderKey pfx (OfCID cid)) = Some provs
               \<and> peer_toString peer \<in> fst ` set provs
               \<and> (case fst (getProviders dec pfx cid s1) of
                     Inr peers \<Rightarrow> peer \<in> set peers \<and> (\<forall>text \<in> fst ` set provs. dec text \<noteq> None)
                   | Inl e \<Rightarrow> \<exists>text \<in> fst ` set provs. dec text = None \<and> e = InvalidPeerId text)"
    by (intro exI [of _ ?provs] conjI)
qed

theorem read_after_write_witness:
  "CHR ''/'' \<notin> set (peer_toString (PeerId ''p1''))
   \<and> example_decoder (peer_toString (PeerId ''p1'')) = Some (PeerId ''p1'')
   \<and> fst (addProvider dht (CID ''ca'') (PeerId ''p1'') stored_example) = Inr ()
   \<and> 0 < cacheSize stored_example
   \<and> fst (getProviders example_decoder dht (CID ''ca'')
          (snd (addProvider dht (CID ''ca'') (PeerId ''p1'') stored_example)))
       = Inr [PeerId ''p0'', PeerId ''p1'']
   \<and> Cleanup \<notin> set [AddProvider (CID ''cb'') (PeerId ''p2''), GetProviders (CID ''cb'')]
   \<and> map fst (cache (snd (run example_decoder dht
          [AddProvider (CID ''cb'') (PeerId ''p2''), GetProviders (CID ''cb'')]
          (snd (addProvider dht (CID ''ca'') (PeerId ''p1'') stored_example)))))
       = [''/dht/provider/cb'']
   \<and> fst (getProviders example_decoder dht (CID ''ca'')
          (snd (run example_decoder dht
             [AddProvider (CID ''cb'') (PeerId ''p2''), GetProviders (CID ''cb'')]
             (snd (addProvider dht (CID ''ca'') (PeerId ''p1'') stored_example)))))
       = Inr [PeerId ''p0'', PeerId ''p1'']
   \<and> PeerId ''p1'' \<in> set [PeerId ''p0'', PeerId ''p1'']"
proof -
  let ?s = "stored_example"
  let ?s1 = "snd (addProvider dht (CID ''ca'') (PeerId ''p1'') ?s)"
  let ?ops = "[AddProvider (CID ''cb'') (PeerId ''p2''), GetProviders (CID ''cb'')]"
  let ?s2 = "snd (run example_decoder dht ?ops ?s1)"
  have slash: "CHR ''/'' \<notin> set (peer_toString (PeerId ''p1''))" by simp
  have roundtrip: "example_decoder (peer_toString (PeerId ''p1'')) = Some (PeerId ''p1'')"
    by (simp add: example_decoder_def)
  have added: "fst (addProvider dht (CID ''ca'') (PeerId ''p1'') ?s) = Inr ()"
    by (simp add: stored_example_def eval_defs)
  then have add: "addProvider dht (CID ''ca'') (PeerId ''p1'') ?s = (Inr (), ?s1)"
    by (simp add: prod_eq_iff)
  have cap: "0 < cacheSize ?s" by (simp add: stored_example_def cacheSize_registry)
  have first: "fst (getProviders example_decoder dht (CID ''ca'') ?s1)
               = Inr [PeerId ''p0'', PeerId ''p1'']"
    by (simp add: stored_example_def eval_defs)
  have ops: "run example_decoder dht ?ops ?s1 = (fst (run example_decoder dht ?ops ?s1), ?s2)"
    by simp
  have no: "Cleanup \<notin> set ?ops" by simp
  have evicted: "map fst (cache ?s2) = [''/dht/provider/cb'']"
    by (simp add: stored_example_def eval_defs)
  have found: "fst (getProviders example_decoder dht (CID ''ca'') ?s2)
               = Inr [PeerId ''p0'', PeerId ''p1'']"
    by (simp add: stored_example_def eval_defs)
  then have get: "getProviders example_decoder dht (CID ''ca'') ?s2
                  = (Inr [PeerId ''p0'', PeerId ''p1''],
                     snd (getProviders example_decoder dht (CID ''ca'') ?s2))"
    by (simp add: prod_eq_iff)
  from read_after_write [where dec = example_decoder and peer = "PeerId ''p1''",
      OF slash roundtrip add]
  have "\<forall>ops rs s2 peers s3.
          run example_decoder dht ops ?s1 = (rs, s2) \<longrightarrow> Cleanup \<notin> set ops \<longrightarrow>
          getProviders example_decoder dht (CID ''ca'') s2 = (Inr peers, s3) \<longrightarrow>
          PeerId ''p1'' \<in> set peers"
    by (rule conjunct2)
  with ops no get have "PeerId ''p1'' \<in> set [PeerId ''p0'', PeerId ''p1'']" by blast
  with slash roundtrip added cap first no evicted found show ?thesis by (intro conjI)
qed

text \<open>
  A text of the datastore that is not a peer id makes the read reject, also right after
  a completed \<open>addProvider\<close>.
\<close>

lemma read_rejects_invalid_text:
  "fst (addProvider dht (CID ''ca'') (PeerId ''p1'')
          (registry 2 1000 [(''/dht/provider/ca/'', [232, 7])])) = Inr ()
   \<and> fst (getProviders example_decoder dht (CID ''ca'')
          (snd (addProvider dht (CID ''ca'') (PeerId ''p1'')
             (registry 2 1000 [(''/dht/provider/ca/'', [232, 7])]))))
       = Inl (InvalidPeerId [])"
  by (simp add: eval_defs)

section \<open>No peer twice in a result\<close>

lemma canonical_maps_subset:
  "canonical_maps dec c \<Longrightarrow> set c' \<subseteq> set c \<Longrightarrow> canonical_maps dec c'"
  unfolding canonical_maps_def by blast

lemma canonical_store_subset:
  "canonical_store dec ds \<Longrightarrow> set ds' \<subseteq> set ds \<Longrightarrow> canonical_store dec ds'"
  unfolding canonical_store_def by blast

lemma load_entries_canonical:
  "load_entries es providers = Inr provs \<Longrightarrow> canonical_store dec es \<Longrightarrow>
   \<forall>text \<in> fst ` set providers. canonical_text dec text \<Longrightarrow>
   \<forall>text \<in> fst ` set provs. canonical_text dec text"
proof (induction es arbitrary: providers)
  case Nil
  then show ?case by simp
next
  case (Cons entry es)
  obtain key val where entry: "entry = (key, val)" by (cases entry)
  from Cons.prems(1) obtain cid peerId time where
    parse: "parseProviderKey key = Inr (cid, peerId)"
    and rest: "load_entries es (AList.update peerId time providers) = Inr provs"
    by (auto simp: entry split: sum.splits)
  from Cons.prems(2) parse have peer: "canonical_text dec peerId" and es: "canonical_store dec es"
    by (auto simp: canonical_store_def entry)
  from peer Cons.prems(3)
  have "\<forall>text \<in> fst ` set (AList.update peerId time providers). canonical_text dec text"
    by (simp add: AList.dom_update)
  with rest es show ?case by (rule Cons.IH)
qed

lemma canonical_maps_lru_get:
  assumes "canonical_maps dec c" and "lru_get k c = (r, c')"
  shows "canonical_maps dec c'
         \<and> (\<forall>provs. r = Some provs \<longrightarrow> (\<forall>text \<in> fst ` set provs. canonical_text dec text))"
proof (cases "map_of c k")
  case None
  with assms show ?thesis by (simp add: lru_get_def)
next
  case (Some v)
  then have mem: "(k, v) \<in> set c" by (rule map_of_SomeD)
  with assms(1) have v: "\<forall>text \<in> fst ` set v. canonical_text dec text"
    unfolding canonical_maps_def by blast
  have "set ((k, v) # AList.delete k c) \<subseteq> set c"
    using mem set_delete_subset [of k c] by simp
  with assms(1) have "canonical_maps dec ((k, v) # AList.delete k c)"
    by (rule canonical_maps_subset)
  with assms(2) Some v show ?thesis by (auto simp: lru_get_def)
qed

lemma canonical_maps_lru_set:
  assumes "canonical_maps dec c" and "\<forall>text \<in> fst ` set provs. canonical_text dec text"
  shows "canonical_maps dec (lru_set capacity k provs c)"
proof -
  have "set (lru_set capacity k provs c) \<subseteq> insert (k, provs) (set c)"
    using set_take_subset [of capacity "(k, provs) # AList.delete k c"] set_delete_subset [of k c]
    by (auto simp: lru_set_def)
  with assms show ?thesis
    unfolding canonical_maps_def by blast
qed

lemma canonical_maps_lru_remove: "canonical_maps dec c \<Longrightarrow> canonical_maps dec (lru_remove k c)"
  using set_delete_subset [of k c] by (auto simp: lru_remove_def intro: canonical_maps_subset)

lemma set_fold_delete_subset: "set (fold AList.delete peers provs) \<subseteq> set provs"
proof (induction peers arbitrary: provs)
  case Nil
  show ?case by simp
next
  case (Cons p peers)
  from Cons.IH [of "AList.delete p provs"] set_delete_subset [of p provs]
  show ?case by auto
qed

lemma canonical_maps_clear_expired:
  assumes "canonical_maps dec c"
  shows "canonical_maps dec (clear_expired pfx capacity entry c)"
proof -
  obtain cid peers where entry: "entry = (cid, peers)" by (cases entry)
  obtain r c' where g: "lru_get (makeProviderKey pfx (OfString cid)) c = (r, c')"
    by (cases "lru_get (makeProviderKey pfx (OfString cid)) c")
  from canonical_maps_lru_get [OF assms g]
  have c': "canonical_maps dec c'"
    and r: "\<And>provs. r = Some provs \<Longrightarrow> \<forall>text \<in> fst ` set provs. canonical_text dec text"
    by simp_all
  show ?thesis
  proof (cases r)
    case None
    with c' show ?thesis by (simp add: clear_expired_def entry g)
  next
    case (Some provs)
    from r [OF Some] set_fold_delete_subset [of peers provs]
    have "\<forall>text \<in> fst ` set (fold AList.delete peers provs). canonical_text dec text"
      by blast
    with c' Some show ?thesis
      by (simp add: clear_expired_def entry g Let_def canonical_maps_lru_remove
          canonical_maps_lru_set)
  qed
qed

lemma canonical_maps_fold_clear_expired:
  "canonical_maps dec c \<Longrightarrow> canonical_maps dec (fold (clear_expired pfx capacity) deleted c)"
  by (induction deleted arbitrary: c) (simp_all add: canonical_maps_clear_expired)

lemma getProvidersMap_canonical:
  assumes "canonical_registry dec s" and "getProvidersMap pfx cid s = (r, s')"
  shows "canonical_registry dec s'
         \<and> (\<forall>provs. r = Inr provs \<longrightarrow> (\<forall>text \<in> fst ` set provs. canonical_text dec text))"
proof -
  from assms(1) have store: "canonical_store dec (datastore s)"
    and maps: "canonical_maps dec (cache s)"
    by (simp_all add: canonical_registry_def)
  from getProvidersMap_fields [OF assms(2)] store have store': "canonical_store dec (datastore s')"
    by simp
  have "canonical_maps dec (cache s')
        \<and> (\<forall>provs. r = Inr provs \<longrightarrow> (\<forall>text \<in> fst ` set provs. canonical_text dec text))"
  proof (cases "map_of (cache s) (makeProviderKey pfx (OfCID cid))")
    case None
    show ?thesis
    proof (cases "faults s 0")
      case (Some cause)
      with assms(2) maps show ?thesis
        unfolding getProvidersMap_miss [OF None] by auto
    next
      case no_fault: None
      let ?es = "filter (\<lambda>(key, val). prefix (makeProviderKey pfx (OfCID cid)) key) (datastore s)"
      show ?thesis
      proof (cases "load_entries ?es []")
        case (Inl e)
        with assms(2) maps no_fault show ?thesis
          unfolding getProvidersMap_miss [OF None] by auto
      next
        case (Inr provs)
        have "canonical_store dec ?es"
          using store by (rule canonical_store_subset) simp
        with Inr have "\<forall>text \<in> fst ` set provs. canonical_text dec text"
          by (rule load_entries_canonical) simp
        with assms(2) maps no_fault Inr show ?thesis
          unfolding getProvidersMap_miss [OF None] by (auto simp: canonical_maps_lru_set)
      qed
    qed
  next
    case (Some provs)
    have g: "lru_get (makeProviderKey pfx (OfCID cid)) (cache s)
             = (Some provs, (makeProviderKey pfx (OfCID cid), provs)
                  # AList.delete (makeProviderKey pfx (OfCID cid)) (cache s))"
      using Some by (simp add: lru_get_def)
    from canonical_maps_lru_get [OF maps g] assms(2) show ?thesis
      unfolding getProvidersMap_hit [OF Some] by auto
  qed
  with store' show ?thesis by (simp add: canonical_registry_def)
qed

lemma canonical_store_update:
  assumes "canonical_store dec ds"
    and "\<And>c p. parseProviderKey key = Inr (c, p) \<Longrightarrow> canonical_text dec p"
  shows "canonical_store dec (AList.update key val ds)"
proof -
  have "set (AList.update key val ds) \<subseteq> insert (key, val) (set ds)"
    by (induction ds) auto
  with assms show ?thesis
    unfolding canonical_store_def by (auto split: sum.splits)
qed

lemma addProvider_canonical:
  assumes inv: "canonical_registry dec s"
    and peer: "canonical_text dec (peer_toString peer)"
    and slash: "CHR ''/'' \<notin> set (peer_toString peer)"
  shows "canonical_registry dec (snd (addProvider pfx cid peer s))"
proof -
  obtain r s1 where g: "getProvidersMap pfx cid s = (r, s1)"
    by (cases "getProvidersMap pfx cid s")
  from getProvidersMap_canonical [OF inv g]
  have s1: "canonical_store dec (datastore s1)" "canonical_maps dec (cache s1)"
    and r: "\<And>provs. r = Inr provs \<Longrightarrow> \<forall>text \<in> fst ` set provs. canonical_text dec text"
    by (simp_all add: canonical_registry_def)
  show ?thesis
  proof (cases r)
    case (Inl e)
    with s1 show ?thesis
      by (simp add: addProvider_failed_load [OF g [unfolded Inl]] canonical_registry_def)
  next
    case (Inr provs)
    let ?provs' = "AList.update (peer_toString peer) (Date (Some (clock s1 0))) provs"
    have "\<forall>text \<in> fst ` set ?provs'. canonical_text dec text"
      using r [OF Inr] peer by (simp add: AList.dom_update)
    with s1(2)
    have cache: "canonical_maps dec
                   (lru_set (cacheSize s1) (makeProviderKey pfx (OfCID cid)) ?provs' (cache s1))"
      by (rule canonical_maps_lru_set)
    have store: "canonical_store dec
                   (AList.update (providerEntryKey pfx cid peer) (varint_encode (clock s1 0))
                      (datastore s1))"
      using s1(1)
    proof (rule canonical_store_update)
      fix c p
      assume "parseProviderKey (providerEntryKey pfx cid peer) = Inr (c, p)"
      from this slash have "p = peer_toString peer" by (rule parse_entry_key_peer)
      with peer show "canonical_text dec p" by simp
    qed
    show ?thesis
      using cache store s1(1)
      unfolding addProvider_loaded [OF g [unfolded Inr]] canonical_registry_def
      by (cases "faults s1 0") simp_all
  qed
qed

lemma getProviders_canonical:
  assumes "canonical_registry dec s"
  shows "canonical_registry dec (snd (getProviders dec' pfx cid s))"
proof -
  obtain r s1 where g: "getProvidersMap pfx cid s = (r, s1)"
    by (cases "getProvidersMap pfx cid s")
  from getProvidersMap_canonical [OF assms g] show ?thesis
    by (cases r) (simp_all add: getProviders_def g)
qed

lemma cleanup_canonical:
  assumes "canonical_registry dec s"
  shows "canonical_registry dec (snd (cleanup pfx s))"
proof -
  have "canonical_store dec (filter P (datastore s))" for P
    using assms by (auto simp: canonical_registry_def intro: canonical_store_subset)
  with assms show ?thesis
    by (simp add: canonical_registry_def cleanup_def Let_def Date_now_def next_reading_def
        store_query_def batch_commit_def next_fault_def canonical_maps_fold_clear_expired
        split: option.splits prod.splits)
qed

lemma run_canonical:
  "canonical_registry dec s \<Longrightarrow> list_all (canonical_operation dec) ops \<Longrightarrow>
   canonical_registry dec (snd (run dec pfx ops s))"
proof (induction ops arbitrary: s)
  case Nil
  then show ?case by simp
next
  case (Cons operation ops)
  from Cons.prems(2) have op: "canonical_operation dec operation"
    and ops: "list_all (canonical_operation dec) ops" by simp_all
  have "canonical_registry dec (snd (step dec pfx operation s))"
  proof (cases operation)
    case (AddProvider cid peer)
    with op Cons.prems(1) show ?thesis by (simp add: snd_step addProvider_canonical)
  next
    case (GetProviders cid)
    with Cons.prems(1) show ?thesis by (simp add: snd_step getProviders_canonical)
  next
    case Cleanup
    with Cons.prems(1) show ?thesis by (simp add: snd_step cleanup_canonical)
  qed
  from this ops show ?case
    unfolding snd_run_Cons by (rule Cons.IH)
qed

text \<open>
  C10. Duplicate-free result. The texts that key the records of the datastore and the
  texts of the peers that are added are canonical: each is the \<^verbatim>\<open>toString()\<close> of the peer
  it decodes to, the only text that \<open>writeProviderEntry\<close> ever writes. Then in every state
  reached from an empty cache by a sequence of operations, the list that \<open>getProviders\<close>
  returns holds each peer id at most once.
\<close>

theorem getProviders_distinct:
  assumes "cache s0 = []"
    and "canonical_store dec (datastore s0)"
    and "list_all (canonical_operation dec) ops"
    and "run dec pfx ops s0 = (rs, s)"
    and "getProviders dec pfx cid s = (Inr peers, s')"
  shows "distinct peers"
proof -
  have "distinct_maps (cache s0)" using assms(1) by (simp add: distinct_maps_def)
  from run_distinct [OF this, of dec pfx ops] assms(4)
  have dist: "distinct_maps (cache s)" by simp
  have "canonical_registry dec s0"
    using assms(1,2) by (simp add: canonical_registry_def canonical_maps_def)
  from run_canonical [OF this assms(3), of pfx] assms(4)
  have canon: "canonical_registry dec s" by simp
  obtain r s1 where g: "getProvidersMap pfx cid s = (r, s1)"
    by (cases "getProvidersMap pfx cid s")
  from assms(5) obtain provs where r: "r = Inr provs"
    and peers: "map_peerIdFromString dec (map fst provs) = Inr peers"
    by (cases r) (auto simp: getProviders_def g)
  from getProvidersMap_distinct [OF dist g] r have keys: "distinct (map fst provs)" by simp
  from getProvidersMap_canonical [OF canon g] r
  have "\<forall>text \<in> set (map fst provs). canonical_text dec text" by simp
  then have "map_peerIdFromString dec (map fst provs) = Inr (map PeerId (map fst provs))"
    by (rule map_peerIdFromString_canonical)
  with peers have "peers = map PeerId (map fst provs)" by simp
  moreover have "inj PeerId" by (simp add: inj_def)
  ultimately show ?thesis
    using keys by (simp only: distinct_map) (simp add: inj_on_def)
qed

theorem getProviders_distinct_witness:
  "cache canonical_example = []
   \<and> canonical_store example_decoder (datastore canonical_example)
   \<and> list_all (canonical_operation example_decoder)
        [AddProvider (CID ''ca'') (PeerId ''p1''), AddProvider (CID ''ca'') (PeerId ''p2''),
         AddProvider (CID ''ca'') (PeerId ''p1'')]
   \<and> fst (getProviders example_decoder dht (CID ''ca'') (snd (run example_decoder dht
        [AddProvider (CID ''ca'') (PeerId ''p1''), AddProvider (CID ''ca'') (PeerId ''p2''),
         AddProvider (CID ''ca'') (PeerId ''p1'')] canonical_example)))
       = Inr [PeerId ''p0'', PeerId ''p1'', PeerId ''p2'']
   \<and> distinct [PeerId ''p0'', PeerId ''p1'', PeerId ''p2'']"
proof -
  let ?ops = "[AddProvider (CID ''ca'') (PeerId ''p1''), AddProvider (CID ''ca'') (PeerId ''p2''),
         AddProvider (CID ''ca'') (PeerId ''p1'')]"
  let ?s = "snd (run example_decoder dht ?ops canonical_example)"
  have empty: "cache canonical_example = []"
    by (simp add: canonical_example_def cache_registry)
  have store: "canonical_store example_decoder (datastore canonical_example)"
    by (simp add: canonical_example_def canonical_store_def canonical_text_def eval_defs)
  have ops: "list_all (canonical_operation example_decoder) ?ops"
    by (simp add: canonical_text_def example_decoder_def)
  have found: "fst (getProviders example_decoder dht (CID ''ca'') ?s)
               = Inr [PeerId ''p0'', PeerId ''p1'', PeerId ''p2'']"
    by (simp add: canonical_example_def eval_defs)
  then have g: "getProviders example_decoder dht (CID ''ca'') ?s
             = (Inr [PeerId ''p0'', PeerId ''p1'', PeerId ''p2''],
                snd (getProviders example_decoder dht (CID ''ca'') ?s))"
    by (simp add: prod_eq_iff)
  have r: "run example_decoder dht ?ops canonical_example
           = (fst (run example_decoder dht ?ops canonical_example), ?s)"
    by simp
  have "distinct [PeerId ''p0'', PeerId ''p1'', PeerId ''p2'']"
    by (rule getProviders_distinct [OF empty store ops r g])
  with empty store ops found show ?thesis by (intro conjI)
qed

text \<open>
  Without that the result can repeat a peer: two records of one CID whose keys spell the
  same peer in two ways are two keys of the map, and both decode to that peer.
\<close>

lemma two_spellings_listed_twice:
  "fst (getProviders example_decoder dht (CID ''ca'')
          (registry 2 1000 [(''/dht/provider/ca/p1'', [232, 7]),
                            (''/dht/provider/ca/bafzp1'', [232, 7])]))
   = Inr [PeerId ''p1'', PeerId ''p1'']"
  by (simp add: eval_defs)

section \<open>Providing again refreshes the record\<close>

lemma filter_key_distinct:
  "distinct (map fst al) \<Longrightarrow> map_of al k = Some v \<Longrightarrow>
   filter (\<lambda>(k', v'). k' = k) al = [(k, v)]"
proof (induction al)
  case Nil
  then show ?case by simp
next
  case (Cons x al)
  obtain k' v' where x: "x = (k', v')" by (cases x)
  show ?case
  proof (cases "k' = k")
    case True
    with Cons.prems x have "v' = v" and "k \<notin> fst ` set al" by auto
    then have "filter (\<lambda>(k', v'). k' = k) al = []"
      by (force simp: filter_empty_conv)
    with True x \<open>v' = v\<close> show ?thesis by simp
  next
    case False
    with Cons x show ?thesis by simp
  qed
qed

text \<open>
  C3. Idempotent refresh: \<open>addProvider cid peer\<close> at the clock reading \<open>t1\<close> and again
  at the next reading \<open>t2\<close>. When the first call completes and the datastore accepts the
  second put, the second call completes too, the datastore holds exactly one record under
  the key of \<open>(cid, peer)\<close>, and its value reads back as \<open>t2\<close>. The datastore is a map
  (no key twice), the cache can hold an entry, and \<open>t2\<close> is a time a \<^verbatim>\<open>Date\<close> can
  hold.
\<close>

theorem idempotent_refresh:
  assumes keys: "distinct (map fst (datastore s))"
    and cap: "0 < cacheSize s"
    and first: "addProvider pfx cid peer s = (Inr u, s1)"
    and no_fault: "faults s1 0 = None"
    and range: "clock s 1 \<le> 8640000000000000"
  shows "\<exists>s2 val. addProvider pfx cid peer s1 = (Inr (), s2)
           \<and> filter (\<lambda>(key, val). key = providerEntryKey pfx cid peer) (datastore s2)
               = [(providerEntryKey pfx cid peer, val)]
           \<and> readTime val = Inr (Date (Some (clock s 1)))"
proof -
  let ?key = "providerEntryKey pfx cid peer"
  let ?ck = "makeProviderKey pfx (OfCID cid)"
  from addProvider_result [OF first] obtain provs and s' :: Providers where
    c1: "cache s1 = lru_set (cacheSize s) ?ck
                      (AList.update (peer_toString peer) (Date (Some (clock s 0))) provs) (cache s')"
    and d1: "datastore s1 = AList.update ?key (varint_encode (clock s 0)) (datastore s)"
    and k1: "clock s1 = (\<lambda>n. clock s (Suc n))"
    by blast
  let ?provs1 = "AList.update (peer_toString peer) (Date (Some (clock s 0))) provs"
  have "map_of (cache s1) ?ck = Some ?provs1"
    unfolding c1 using cap by (rule map_of_lru_set_same)
  note g = getProvidersMap_hit [OF this]
  have second: "fst (addProvider pfx cid peer s1) = Inr ()"
    and d2: "datastore (snd (addProvider pfx cid peer s1))
             = AList.update ?key (varint_encode (clock s1 0)) (datastore s1)"
    unfolding addProvider_loaded [OF g] by (simp_all add: no_fault)
  have t2: "clock s1 0 = clock s 1" by (simp add: k1)
  have "distinct (map fst (datastore (snd (addProvider pfx cid peer s1))))"
    unfolding d2 d1 using keys by (intro AList.distinct_update)
  moreover have "map_of (datastore (snd (addProvider pfx cid peer s1))) ?key
                 = Some (varint_encode (clock s 1))"
    unfolding d2 t2 by (simp add: AList.update_conv')
  ultimately have one: "filter (\<lambda>(key, val). key = ?key) (datastore (snd (addProvider pfx cid peer s1)))
                   = [(?key, varint_encode (clock s 1))]"
    by (rule filter_key_distinct)
  have "readTime (varint_encode (clock s 1)) = Inr (Date (Some (clock s 1)))"
    using range by (rule readTime_encode)
  with one second show ?thesis
    by (intro exI [of _ "snd (addProvider pfx cid peer s1)"] exI [of _ "varint_encode (clock s 1)"])
       (simp add: prod_eq_iff)
qed

theorem idempotent_refresh_witness:
  "distinct (map fst (datastore (registry 2 1000 [])))
   \<and> 0 < cacheSize (registry 2 1000 [])
   \<and> fst (addProvider dht (CID ''ca'') (PeerId ''p1'') (registry 2 1000 [])) = Inr ()
   \<and> faults (snd (addProvider dht (CID ''ca'') (PeerId ''p1'') (registry 2 1000 []))) 0 = None
   \<and> clock (registry 2 1000 []) 0 < clock (registry 2 1000 []) 1
   \<and> clock (registry 2 1000 []) 1 = 1000
   \<and> (\<exists>s2 val. addProvider dht (CID ''ca'') (PeerId ''p1'')
                    (snd (addProvider dht (CID ''ca'') (PeerId ''p1'') (registry 2 1000 [])))
                  = (Inr (), s2)
          \<and> filter (\<lambda>(key, val). key = ''/dht/provider/ca/p1'') (datastore s2)
               = [(''/dht/provider/ca/p1'', val)]
          \<and> readTime val = Inr (Date (Some 1000)))"
proof -
  let ?s = "registry 2 1000 []"
  let ?s1 = "snd (addProvider dht (CID ''ca'') (PeerId ''p1'') ?s)"
  have keys: "distinct (map fst (datastore ?s))" by (simp add: registry_def Providers_new_def)
  have cap: "0 < cacheSize ?s" by (simp add: cacheSize_registry)
  have ok: "fst (addProvider dht (CID ''ca'') (PeerId ''p1'') ?s) = Inr ()"
    by (simp add: eval_defs)
  then have first: "addProvider dht (CID ''ca'') (PeerId ''p1'') ?s = (Inr (), ?s1)"
    by (simp add: prod_eq_iff)
  have no_fault: "faults ?s1 0 = None" by (simp add: eval_defs)
  have t: "clock ?s 1 = 1000" "clock ?s 0 < clock ?s 1" by (simp_all add: registry_def Providers_new_def)
  then have range: "clock ?s 1 \<le> 8640000000000000" by simp
  have key: "providerEntryKey dht (CID ''ca'') (PeerId ''p1'') = ''/dht/provider/ca/p1''"
    by (simp add: eval_defs)
  from idempotent_refresh [OF keys cap first no_fault range]
  have again: "\<exists>s2 val. addProvider dht (CID ''ca'') (PeerId ''p1'') ?s1 = (Inr (), s2)
          \<and> filter (\<lambda>(key, val). key = ''/dht/provider/ca/p1'') (datastore s2)
               = [(''/dht/provider/ca/p1'', val)]
          \<and> readTime val = Inr (Date (Some 1000))"
    unfolding key t(1) .
  show ?thesis
    by (intro conjI) (rule keys, rule cap, rule ok, rule no_fault, rule t(2), rule t(1), rule again)
qed

section \<open>What a lookup returns and how it fails\<close>

lemma load_entries_readable:
  "list_all readable es \<Longrightarrow> \<exists>provs. load_entries es providers = Inr provs"
proof (induction es arbitrary: providers)
  case Nil
  show ?case by simp
next
  case (Cons entry es)
  obtain key val where entry: "entry = (key, val)" by (cases entry)
  from Cons.prems have "readable (key, val)" and rest: "list_all readable es"
    by (simp_all add: entry)
  then obtain c p time where "parseProviderKey key = Inr (c, p)" "readTime val = Inr time"
    by (auto simp: readable_def split: sum.splits)
  with Cons.IH [OF rest] show ?case by (simp add: entry)
qed

lemma getProvidersMap_failure:
  assumes "list_all readable
             (filter (\<lambda>(key, val). prefix (makeProviderKey pfx (OfCID cid)) key) (datastore s))"
    and "getProvidersMap pfx cid s = (Inl e, s')"
  shows "\<exists>cause. e = BackendFailure cause"
proof (cases "map_of (cache s) (makeProviderKey pfx (OfCID cid))")
  case (Some provs)
  from assms(2) show ?thesis
    unfolding getProvidersMap_hit [OF Some] by simp
next
  case None
  from load_entries_readable [OF assms(1), of "[]"] obtain provs where
    "load_entries (filter (\<lambda>(key, val). prefix (makeProviderKey pfx (OfCID cid)) key) (datastore s)) []
     = Inr provs" by blast
  with assms(2) show ?thesis
    unfolding getProvidersMap_miss [OF None] by (cases "faults s 0") auto
qed

lemma getProviders_empty:
  assumes miss: "map_of (cache s) (makeProviderKey pfx (OfCID cid)) = None"
    and none: "filter (\<lambda>(key, val). prefix (makeProviderKey pfx (OfCID cid)) key) (datastore s) = []"
  shows "fst (getProviders dec pfx cid s)
         = (case faults s 0 of None \<Rightarrow> Inr [] | Some cause \<Rightarrow> Inl (BackendFailure cause))"
  unfolding getProviders_def getProvidersMap_miss [OF miss] none
  by (cases "faults s 0") simp_all

lemma addProvider_failure:
  assumes r: "list_all readable
         (filter (\<lambda>(key, val). prefix (makeProviderKey pfx (OfCID cid)) key) (datastore s))"
    and f: "fst (addProvider pfx cid peer s) = Inl e"
  shows "\<exists>cause. e = BackendFailure cause"
proof -
  obtain r' s' where g: "getProvidersMap pfx cid s = (r', s')"
    by (cases "getProvidersMap pfx cid s")
  show ?thesis
  proof (cases r')
    case (Inl e')
    with f g have "e' = e" by (simp add: addProvider_failed_load)
    with g Inl getProvidersMap_failure [OF r] show ?thesis by simp
  next
    case (Inr provs)
    from f show ?thesis
      unfolding addProvider_loaded [OF g [unfolded Inr]] by (cases "faults s' 0") auto
  qed
qed

lemma getProviders_failure:
  assumes r: "list_all readable
         (filter (\<lambda>(key, val). prefix (makeProviderKey pfx (OfCID cid)) key) (datastore s))"
    and f: "fst (getProviders dec pfx cid s) = Inl e"
  shows "(\<exists>cause. e = BackendFailure cause) \<or> (\<exists>text. dec text = None \<and> e = InvalidPeerId text)"
proof -
  obtain r' s' where g: "getProvidersMap pfx cid s = (r', s')"
    by (cases "getProvidersMap pfx cid s")
  show ?thesis
  proof (cases r')
    case (Inl e')
    with f g have "e' = e" by (simp add: getProviders_def)
    with g Inl getProvidersMap_failure [OF r] show ?thesis by simp
  next
    case (Inr provs)
    with f g have "map_peerIdFromString dec (map fst provs) = Inl e"
      by (simp add: getProviders_def)
    from map_peerIdFromString_Inl [OF this] show ?thesis by blast
  qed
qed

text \<open>
  C8. Empty lookup, and how a lookup fails. For a CID with no entry in the cache and no
  record under its key prefix \<open>getProviders\<close> returns the empty list. But a record under
  the prefix whose key has six parts makes \<open>getProviders\<close> and \<open>addProvider\<close> fail with
  the error of \<open>parseProviderKey\<close>, and one whose peer text is not a peer id makes
  \<open>getProviders\<close> fail with the error of \<open>peerIdFromString\<close>: neither is a
  \<open>BackendFailure\<close>. The loop of \<open>loadProviders\<close> has no handler; the loop of the sweep
  has one.
\<close>

theorem lookup_malformed_key:
  "fst (getProviders example_decoder dht (CID ''ca'')
          (registry 2 1000 [(''/dht/provider/cb/p1'', [232, 7])]))
     = Inr []
   \<and> fst (getProviders example_decoder dht (CID ''ca'')
          (registry 2 1000 [(''/dht/provider/ca/p1/x'', [232, 7])]))
     = Inl (MalformedKey ''/dht/provider/ca/p1/x'')
   \<and> fst (addProvider dht (CID ''ca'') (PeerId ''p2'')
          (registry 2 1000 [(''/dht/provider/ca/p1/x'', [232, 7])]))
     = Inl (MalformedKey ''/dht/provider/ca/p1/x'')
   \<and> fst (getProviders example_decoder dht (CID ''ca'')
          (registry 2 1000 [(''/dht/provider/ca/'', [232, 7])]))
     = Inl (InvalidPeerId [])
   \<and> fst (cleanup dht (registry 2 1000 [(''/dht/provider/ca/p1/x'', [232, 7])]))
     = Inr ()"
  by (simp add: eval_defs)

text \<open>
  C4. Malformed-entry containment. The sweep contains a malformed entry: it skips it and
  goes on (here it deletes the expired record of \<open>p2\<close>). The two other operations do not:
  with the same datastore, \<open>getProviders\<close> and \<open>addProvider\<close> fail with the error of the
  first entry that does not parse, which reaches the caller.
\<close>

theorem malformed_entry_not_contained:
  "fst (getProviders example_decoder dht (CID ''ca'')
          (registry 2 500 [(''/dht/provider/ca'', [1]), (''/dht/provider/ca/p1'', [128]),
                           (''/dht/provider/ca/p2'', [0])]))
     = Inl (MalformedKey ''/dht/provider/ca'')
   \<and> fst (addProvider dht (CID ''ca'') (PeerId ''p3'')
          (registry 2 500 [(''/dht/provider/ca'', [1]), (''/dht/provider/ca/p1'', [128]),
                           (''/dht/provider/ca/p2'', [0])]))
     = Inl (MalformedKey ''/dht/provider/ca'')
   \<and> fst (getProviders example_decoder dht (CID ''ca'')
          (registry 2 500 [(''/dht/provider/ca/p1'', [128]), (''/dht/provider/ca/p2'', [0])]))
     = Inl MalformedRecord
   \<and> fst (cleanup dht
          (registry 2 500 [(''/dht/provider/ca'', [1]), (''/dht/provider/ca/p1'', [128]),
                           (''/dht/provider/ca/p2'', [0])]))
     = Inr ()
   \<and> datastore (snd (cleanup dht
          (registry 2 500 [(''/dht/provider/ca'', [1]), (''/dht/provider/ca/p1'', [128]),
                           (''/dht/provider/ca/p2'', [0])])))
     = [(''/dht/provider/ca'', [1]), (''/dht/provider/ca/p1'', [128])]"
  by (simp add: eval_defs)

section \<open>The sweep\<close>

lemma cleanup_scanned:
  assumes "faults s 0 = None"
    and "fold (cleanup_entry (provideValidity s))
             (filter (\<lambda>(key, val). prefix pfx key) (datastore s))
             ([], [], \<lambda>n. clock s (Suc n)) = (batch, deleted, clk)"
  shows "fst (cleanup pfx s)
           = (if deleted = [] then Inr ()
              else case faults s 1 of Some cause \<Rightarrow> Inl (BackendFailure cause) | None \<Rightarrow> Inr ())"
    and "datastore (snd (cleanup pfx s))
           = (if deleted = [] \<or> faults s 1 \<noteq> None then datastore s
              else filter (\<lambda>(key, val). key \<notin> set batch) (datastore s))"
    and "cache (snd (cleanup pfx s))
           = (if deleted \<noteq> [] \<and> faults s 1 \<noteq> None then cache s
              else fold (clear_expired pfx (cacheSize s)) deleted (cache s))"
  using assms
  by (cases "deleted = []"; cases "faults s (Suc 0)";
      simp add: cleanup_def Let_def Date_now_def next_reading_def store_query_def
        batch_commit_def next_fault_def)+

lemma cleanup_query_failed:
  assumes "faults s 0 = Some cause"
  shows "fst (cleanup pfx s) = Inl (BackendFailure cause)"
    and "datastore (snd (cleanup pfx s)) = datastore s"
    and "cache (snd (cleanup pfx s)) = cache s"
  using assms
  by (simp_all add: cleanup_def Let_def Date_now_def next_reading_def store_query_def next_fault_def)

lemma cleanup_completed:
  assumes "cleanup pfx s = (Inr u, s')"
  shows "\<exists>batch deleted clk.
           fold (cleanup_entry (provideValidity s))
             (filter (\<lambda>(key, val). prefix pfx key) (datastore s))
             ([], [], \<lambda>n. clock s (Suc n)) = (batch, deleted, clk)
           \<and> datastore s' = (if deleted = [] then datastore s
                             else filter (\<lambda>(key, val). key \<notin> set batch) (datastore s))
           \<and> cache s' = fold (clear_expired pfx (cacheSize s)) deleted (cache s)"
proof -
  obtain batch deleted clk where
    f: "fold (cleanup_entry (provideValidity s))
             (filter (\<lambda>(key, val). prefix pfx key) (datastore s))
             ([], [], \<lambda>n. clock s (Suc n)) = (batch, deleted, clk)"
    by (cases "fold (cleanup_entry (provideValidity s))
             (filter (\<lambda>(key, val). prefix pfx key) (datastore s))
             ([], [], \<lambda>n. clock s (Suc n))") auto
  have res: "fst (cleanup pfx s) = Inr u" "snd (cleanup pfx s) = s'"
    by (simp_all add: assms)
  have nf: "faults s 0 = None"
    using res(1) cleanup_query_failed(1) [of s _ pfx] by (cases "faults s 0") simp_all
  have commit: "deleted \<noteq> [] \<Longrightarrow> faults s 1 = None"
    using res(1) unfolding cleanup_scanned(1) [OF nf f] by (cases "faults s 1") simp_all
  have "datastore (snd (cleanup pfx s)) = (if deleted = [] then datastore s
                             else filter (\<lambda>(key, val). key \<notin> set batch) (datastore s))"
    unfolding cleanup_scanned(2) [OF nf f] using commit by auto
  moreover have "cache (snd (cleanup pfx s)) = fold (clear_expired pfx (cacheSize s)) deleted (cache s)"
    unfolding cleanup_scanned(3) [OF nf f] using commit by auto
  ultimately show ?thesis using f unfolding res(2) by blast
qed

lemma cleanup_entry_skip_key:
  "parseProviderKey key = Inl e \<Longrightarrow> cleanup_entry validity (key, val) acc = acc"
  by (cases acc) (auto simp: cleanup_entry_def split: sum.splits)

lemma cleanup_entry_skip_value:
  "readTime val = Inl e \<Longrightarrow> cleanup_entry validity (key, val) acc = acc"
  by (cases acc) (auto simp: cleanup_entry_def split: sum.splits)

lemma cleanup_entry_read:
  assumes "parseProviderKey key = Inr (c, p)" and "readTime val = Inr d"
  shows "cleanup_entry validity (key, val) (batch, deleted, clk)
         = (if (case getTime d of None \<Rightarrow> False | Some t \<Rightarrow> int (clk 0) - int t > validity)
            then (batch @ [key], AList.update c (set_add p (deleted_peers deleted c)) deleted,
                  \<lambda>n. clk (Suc n))
            else (batch, deleted, \<lambda>n. clk (Suc n)))"
  using assms by (simp add: cleanup_entry_def next_reading_def deleted_peers_def Let_def)

lemma cleanup_entry_cases:
  obtains "cleanup_entry validity (key, val) (batch, deleted, clk) = (batch, deleted, clk)"
  | "cleanup_entry validity (key, val) (batch, deleted, clk) = (batch, deleted, \<lambda>n. clk (Suc n))"
  | c p where "parseProviderKey key = Inr (c, p)"
      "cleanup_entry validity (key, val) (batch, deleted, clk)
       = (batch @ [key], AList.update c (set_add p (deleted_peers deleted c)) deleted,
          \<lambda>n. clk (Suc n))"
proof (cases "parseProviderKey key")
  case (Inl e)
  then have "cleanup_entry validity (key, val) (batch, deleted, clk) = (batch, deleted, clk)"
    by (rule cleanup_entry_skip_key)
  then show ?thesis by (rule that(1))
next
  case (Inr parsed)
  obtain c p where parsed: "parsed = (c, p)" by (cases parsed)
  show ?thesis
  proof (cases "readTime val")
    case (Inl e)
    then have "cleanup_entry validity (key, val) (batch, deleted, clk) = (batch, deleted, clk)"
      by (rule cleanup_entry_skip_value)
    then show ?thesis by (rule that(1))
  next
    case d: (Inr d)
    note r = cleanup_entry_read [OF Inr [unfolded parsed] d, of validity batch deleted clk]
    show ?thesis
    proof (cases "case getTime d of None \<Rightarrow> False | Some t \<Rightarrow> int (clk 0) - int t > validity")
      case True
      with r that(3) [OF Inr [unfolded parsed]] show ?thesis by simp
    next
      case False
      with r that(2) show ?thesis by simp
    qed
  qed
qed

lemma set_set_add: "set (set_add x xs) = insert x (set xs)"
  by (auto simp: set_add_def)

lemma deleted_peers_update:
  "deleted_peers (AList.update c peers deleted) c' = (if c' = c then peers else deleted_peers deleted c')"
  by (simp add: deleted_peers_def AList.update_conv')

lemma staged_step:
  assumes "staged batch deleted"
    and "cleanup_entry validity (key, val) (batch, deleted, clk) = (batch', deleted', clk')"
  shows "staged batch' deleted'"
proof (rule cleanup_entry_cases [of validity key val batch deleted clk])
  assume "cleanup_entry validity (key, val) (batch, deleted, clk) = (batch, deleted, clk)"
  with assms show ?thesis by simp
next
  assume "cleanup_entry validity (key, val) (batch, deleted, clk) = (batch, deleted, \<lambda>n. clk (Suc n))"
  with assms show ?thesis by simp
next
  fix c p
  assume parse: "parseProviderKey key = Inr (c, p)"
    and "cleanup_entry validity (key, val) (batch, deleted, clk)
       = (batch @ [key], AList.update c (set_add p (deleted_peers deleted c)) deleted,
          \<lambda>n. clk (Suc n))"
  with assms(2) have b: "batch' = batch @ [key]"
    and d: "deleted' = AList.update c (set_add p (deleted_peers deleted c)) deleted" by simp_all
  from assms(1) have dist: "distinct (map fst deleted)"
    and parsed: "\<forall>key \<in> set batch. \<exists>c p. parseProviderKey key = Inr (c, p)"
    and corr: "\<And>c p. p \<in> set (deleted_peers deleted c)
               \<longleftrightarrow> (\<exists>key \<in> set batch. parseProviderKey key = Inr (c, p))"
    by (simp_all add: staged_def)
  show ?thesis
    unfolding staged_def b d
  proof (intro conjI ballI allI)
    show "distinct (map fst (AList.update c (set_add p (deleted_peers deleted c)) deleted))"
      using dist by (rule AList.distinct_update)
  next
    fix k assume "k \<in> set (batch @ [key])"
    with parsed parse show "\<exists>c p. parseProviderKey k = Inr (c, p)" by auto
  next
    fix c' p'
    show "p' \<in> set (deleted_peers (AList.update c (set_add p (deleted_peers deleted c)) deleted) c')
          \<longleftrightarrow> (\<exists>k \<in> set (batch @ [key]). parseProviderKey k = Inr (c', p'))"
      using parse corr [of p' c'] by (auto simp: deleted_peers_update set_set_add)
  qed
qed

lemma staged_fold:
  "staged batch deleted \<Longrightarrow>
   fold (cleanup_entry validity) es (batch, deleted, clk) = (batch', deleted', clk') \<Longrightarrow>
   staged batch' deleted'"
proof (induction es arbitrary: batch deleted clk)
  case Nil
  then show ?case by simp
next
  case (Cons entry es)
  obtain key val where entry: "entry = (key, val)" by (cases entry)
  obtain b1 d1 clk1 where st: "cleanup_entry validity (key, val) (batch, deleted, clk) = (b1, d1, clk1)"
    by (cases "cleanup_entry validity (key, val) (batch, deleted, clk)") auto
  from Cons.prems(1) st have "staged b1 d1" by (rule staged_step)
  moreover from Cons.prems(2) have "fold (cleanup_entry validity) es (b1, d1, clk1) = (batch', deleted', clk')"
    by (simp add: entry st)
  ultimately show ?case by (rule Cons.IH)
qed

lemma batch_step:
  assumes "cleanup_entry validity (key, val) (batch, deleted, clk) = (batch', deleted', clk')"
  shows "set batch \<subseteq> set batch' \<and> set batch' \<subseteq> insert key (set batch)
         \<and> (clk' = clk \<or> clk' = (\<lambda>n. clk (Suc n)))"
  by (rule cleanup_entry_cases [of validity key val batch deleted clk]) (use assms in auto)

lemma batch_fold:
  "fold (cleanup_entry validity) es (batch, deleted, clk) = (batch', deleted', clk') \<Longrightarrow>
   set batch \<subseteq> set batch' \<and> set batch' \<subseteq> set batch \<union> fst ` set es"
proof (induction es arbitrary: batch deleted clk)
  case Nil
  then show ?case by simp
next
  case (Cons entry es)
  obtain key val where entry: "entry = (key, val)" by (cases entry)
  obtain b1 d1 clk1 where st: "cleanup_entry validity (key, val) (batch, deleted, clk) = (b1, d1, clk1)"
    by (cases "cleanup_entry validity (key, val) (batch, deleted, clk)") auto
  from Cons.prems have "fold (cleanup_entry validity) es (b1, d1, clk1) = (batch', deleted', clk')"
    by (simp add: entry st)
  from Cons.IH [OF this] batch_step [OF st] show ?case
    by (auto simp: entry)
qed

lemma cleanup_entry_clock:
  assumes "cleanup_entry validity entry (batch, deleted, clk) = (batch', deleted', clk')"
  shows "clk' = (if readable entry then (\<lambda>n. clk (Suc n)) else clk)"
proof -
  obtain key val where entry: "entry = (key, val)" by (cases entry)
  show ?thesis
  proof (cases "parseProviderKey key")
    case (Inl e)
    with assms cleanup_entry_skip_key [OF Inl] show ?thesis
      by (simp add: entry readable_def)
  next
    case (Inr parsed)
    obtain c p where parsed: "parsed = (c, p)" by (cases parsed)
    show ?thesis
    proof (cases "readTime val")
      case (Inl e)
      with assms cleanup_entry_skip_value [OF Inl] Inr show ?thesis
        by (simp add: entry readable_def)
    next
      case d: (Inr d)
      from assms show ?thesis
        unfolding entry cleanup_entry_read [OF Inr [unfolded parsed] d]
        by (simp add: readable_def Inr d split: if_splits)
    qed
  qed
qed

lemma fold_decision:
  assumes "distinct (map fst es)" and "(key, val) \<in> set es"
    and "parseProviderKey key = Inr (c, p)" and "readTime val = Inr (Date (Some t))"
    and "key \<notin> set batch"
    and "fold (cleanup_entry validity) es (batch, deleted, clk) = (batch', deleted', clk')"
  shows "key \<in> set batch'
         \<longleftrightarrow> int (clk (length (filter readable (takeWhile (\<lambda>(k, v). k \<noteq> key) es)))) - int t
               > validity"
  using assms
proof (induction es arbitrary: batch deleted clk)
  case Nil
  then show ?case by simp
next
  case (Cons entry es)
  obtain k0 v0 where entry: "entry = (k0, v0)" by (cases entry)
  obtain b1 d1 clk1 where st: "cleanup_entry validity (k0, v0) (batch, deleted, clk) = (b1, d1, clk1)"
    by (cases "cleanup_entry validity (k0, v0) (batch, deleted, clk)") auto
  from Cons.prems(6) have rest: "fold (cleanup_entry validity) es (b1, d1, clk1) = (batch', deleted', clk')"
    by (simp add: entry st)
  from Cons.prems(1) have dist: "distinct (map fst es)" and k0: "k0 \<notin> fst ` set es"
    by (simp_all add: entry)
  show ?case
  proof (cases "k0 = key")
    case True
    with Cons.prems(1,2) k0 have v0: "v0 = val" by (force simp: entry)
    from st have b1: "b1 = (if int (clk 0) - int t > validity then batch @ [key] else batch)"
      unfolding True v0 cleanup_entry_read [OF Cons.prems(3,4)] by (simp split: if_splits)
    from k0 True have "key \<notin> fst ` set es" by simp
    with batch_fold [OF rest] have "key \<in> set batch' \<longleftrightarrow> key \<in> set b1" by auto
    also have "\<dots> \<longleftrightarrow> int (clk 0) - int t > validity"
      using Cons.prems(5) by (simp add: b1)
    finally show ?thesis by (simp add: entry True)
  next
    case False
    with Cons.prems(2) have mem: "(key, val) \<in> set es" by (simp add: entry)
    from False batch_step [OF st] Cons.prems(5) have "key \<notin> set b1" by auto
    note ih = Cons.IH [OF dist mem Cons.prems(3,4) this rest]
    from cleanup_entry_clock [OF st]
    have clk1: "clk1 = (if readable (k0, v0) then (\<lambda>n. clk (Suc n)) else clk)" .
    show ?thesis
      using ih False by (simp add: entry clk1)
  qed
qed

lemma map_of_fold_delete:
  "map_of (fold AList.delete peers provs) p = (if p \<in> set peers then None else map_of provs p)"
  by (induction peers arbitrary: provs) (auto simp: AList.delete_conv)

lemma makeProviderKey_string_inj:
  "makeProviderKey pfx (OfString c') = makeProviderKey pfx (OfString c) \<longleftrightarrow> c' = c"
  by (simp add: makeProviderKey_def)

lemma map_of_clear_expired:
  assumes "length c \<le> capacity"
  shows "map_of (clear_expired pfx capacity (cid, peers) c) k
         = (if k = makeProviderKey pfx (OfString cid)
            then (case map_of c k of
                    None \<Rightarrow> None
                  | Some provs \<Rightarrow>
                      if fold AList.delete peers provs = [] then None
                      else Some (fold AList.delete peers provs))
            else map_of c k)"
proof (cases "map_of c (makeProviderKey pfx (OfString cid))")
  case None
  then show ?thesis
    by (simp add: clear_expired_def lru_get_def)
next
  case (Some provs)
  let ?key = "makeProviderKey pfx (OfString cid)"
  let ?provs' = "fold AList.delete peers provs"
  have del: "AList.delete ?key ((?key, provs) # AList.delete ?key c) = AList.delete ?key c"
    by (simp add: AList.delete_idem)
  from length_delete_present [OF Some] assms have "Suc (length (AList.delete ?key c)) \<le> capacity"
    by simp
  then have tk: "take capacity ((?key, ?provs') # AList.delete ?key c) = (?key, ?provs') # AList.delete ?key c"
    by simp
  have "clear_expired pfx capacity (cid, peers) c
        = (if ?provs' = [] then AList.delete ?key c else (?key, ?provs') # AList.delete ?key c)"
    using Some del tk by (simp add: clear_expired_def lru_get_def lru_remove_def lru_set_def Let_def)
  then show ?thesis
    using Some by (simp add: AList.delete_conv)
qed

lemma map_of_fold_clear_expired:
  assumes "length c \<le> capacity" and "distinct (map fst deleted)"
  shows "map_of (fold (clear_expired pfx capacity) deleted c) (makeProviderKey pfx (OfString cid))
         = (case map_of deleted cid of
              None \<Rightarrow> map_of c (makeProviderKey pfx (OfString cid))
            | Some peers \<Rightarrow>
                (case map_of c (makeProviderKey pfx (OfString cid)) of
                   None \<Rightarrow> None
                 | Some provs \<Rightarrow>
                     if fold AList.delete peers provs = [] then None
                     else Some (fold AList.delete peers provs)))"
  using assms
proof (induction deleted arbitrary: c)
  case Nil
  show ?case by simp
next
  case (Cons entry deleted)
  obtain c0 peers0 where entry: "entry = (c0, peers0)" by (cases entry)
  let ?c1 = "clear_expired pfx capacity (c0, peers0) c"
  have len: "length ?c1 \<le> capacity"
    using Cons.prems(1) by (rule length_clear_expired)
  from Cons.prems(2) have dist: "distinct (map fst deleted)" and c0: "c0 \<notin> fst ` set deleted"
    by (simp_all add: entry)
  note ih = Cons.IH [OF len dist]
  show ?case
  proof (cases "c0 = cid")
    case True
    with c0 have none: "map_of deleted cid = None"
      by (simp add: map_of_eq_None_iff)
    have "map_of (fold (clear_expired pfx capacity) (entry # deleted) c)
            (makeProviderKey pfx (OfString cid))
          = map_of ?c1 (makeProviderKey pfx (OfString cid))"
      using ih by (simp add: entry none)
    also have "\<dots> = (case map_of c (makeProviderKey pfx (OfString cid)) of
                   None \<Rightarrow> None
                 | Some provs \<Rightarrow>
                     if fold AList.delete peers0 provs = [] then None
                     else Some (fold AList.delete peers0 provs))"
      unfolding map_of_clear_expired [OF Cons.prems(1)] True by simp
    finally show ?thesis by (simp add: entry True)
  next
    case False
    then have neq: "makeProviderKey pfx (OfString cid) \<noteq> makeProviderKey pfx (OfString c0)"
      by (simp add: makeProviderKey_string_inj)
    have same: "map_of ?c1 (makeProviderKey pfx (OfString cid))
                = map_of c (makeProviderKey pfx (OfString cid))"
      unfolding map_of_clear_expired [OF Cons.prems(1)] using neq by simp
    have "map_of (entry # deleted) cid = map_of deleted cid"
      using False by (simp add: entry)
    with ih show ?thesis
      unfolding same by (simp add: entry)
  qed
qed

lemma map_of_filter_keys:
  "map_of (filter (\<lambda>(key, val). P key) al) k = (if P k then map_of al k else None)"
  by (induction al) auto

lemma staged_nonempty:
  assumes "staged batch deleted" and "key \<in> set batch"
  shows "deleted \<noteq> []"
proof
  assume "deleted = []"
  then have "\<And>c. deleted_peers deleted c = []" by (simp add: deleted_peers_def)
  moreover from assms obtain c p where "p \<in> set (deleted_peers deleted c)"
    unfolding staged_def by blast
  ultimately show False by simp
qed

text \<open>
  C2. Expiry is exact and strict. Take a completed sweep and a record of the datastore
  under the provider prefix whose key parses to \<open>(c, p)\<close> and whose value reads as the time
  \<open>t\<close>. The sweep compares it with the clock reading \<open>i\<close>: the first reading is the start
  of the sweep, and each record before this one takes a reading if it can be read. If
  \<open>now - t > provideValidity\<close> at that reading, the key is gone from the datastore and the
  peer from the cached map of \<open>c\<close>; otherwise the record is still in the datastore and, if
  it is the only record of \<open>(c, p)\<close>, the cached map of \<open>c\<close> still holds the peer with its
  date. The datastore is a map and the cache is within its capacity.
\<close>

theorem sweep_expiry:
  assumes swept: "cleanup pfx s = (Inr u, s')"
    and keys: "distinct (map fst (datastore s))"
    and bounded: "length (cache s) \<le> cacheSize s"
    and entry: "(key, val) \<in> set (datastore s)" "prefix pfx key"
    and parse: "parseProviderKey key = Inr (c, p)"
    and time: "readTime val = Inr (Date (Some t))"
  shows "let i = Suc (length (filter readable (takeWhile (\<lambda>(k, v). k \<noteq> key)
                           (filter (\<lambda>(key, val). prefix pfx key) (datastore s)))))
         in (if int (clock s i) - int t > provideValidity s
           then key \<notin> fst ` set (datastore s')
                \<and> (\<forall>provs. map_of (cache s') (makeProviderKey pfx (OfString c)) = Some provs
                      \<longrightarrow> p \<notin> fst ` set provs)
           else map_of (datastore s') key = Some val
                \<and> ((\<forall>(key', val') \<in> set (datastore s).
                        prefix pfx key' \<longrightarrow> parseProviderKey key' = Inr (c, p) \<longrightarrow> key' = key)
                    \<longrightarrow> (\<forall>provs d. map_of (cache s) (makeProviderKey pfx (OfString c)) = Some provs
                           \<longrightarrow> map_of provs p = Some d
                           \<longrightarrow> (\<exists>provs'. map_of (cache s') (makeProviderKey pfx (OfString c)) = Some provs'
                                  \<and> map_of provs' p = Some d))))"
proof -
  let ?es = "filter (\<lambda>(key, val). prefix pfx key) (datastore s)"
  let ?ck = "makeProviderKey pfx (OfString c)"
  from cleanup_completed [OF swept] obtain batch deleted clk where
    f: "fold (cleanup_entry (provideValidity s)) ?es ([], [], \<lambda>n. clock s (Suc n))
        = (batch, deleted, clk)"
    and d': "datastore s' = (if deleted = [] then datastore s
                             else filter (\<lambda>(key, val). key \<notin> set batch) (datastore s))"
    and c': "cache s' = fold (clear_expired pfx (cacheSize s)) deleted (cache s)"
    by blast
  have "staged [] []" by (simp add: staged_def deleted_peers_def)
  from this f have st: "staged batch deleted" by (rule staged_fold)
  then have dist: "distinct (map fst deleted)"
    and corr: "\<And>c p. p \<in> set (deleted_peers deleted c)
               \<longleftrightarrow> (\<exists>key \<in> set batch. parseProviderKey key = Inr (c, p))"
    by (simp_all add: staged_def)
  note cache' = map_of_fold_clear_expired [OF bounded dist, of pfx c, folded c']
  have des: "distinct (map fst ?es)" using keys by (rule distinct_map_filter)
  have mem: "(key, val) \<in> set ?es" using entry by simp
  define i where "i = length (filter readable (takeWhile (\<lambda>(k, v). k \<noteq> key) ?es))"
  from fold_decision [OF des mem parse time _ f]
  have i: "key \<in> set batch \<longleftrightarrow> int (clock s (Suc i)) - int t > provideValidity s"
    by (simp add: i_def)
  have stored: "map_of (datastore s) key = Some val"
    using keys entry(1) by (rule map_of_is_SomeI)
  have "if int (clock s (Suc i)) - int t > provideValidity s
           then key \<notin> fst ` set (datastore s')
                \<and> (\<forall>provs. map_of (cache s') ?ck = Some provs \<longrightarrow> p \<notin> fst ` set provs)
           else map_of (datastore s') key = Some val
                \<and> ((\<forall>(key', val') \<in> set (datastore s).
                        prefix pfx key' \<longrightarrow> parseProviderKey key' = Inr (c, p) \<longrightarrow> key' = key)
                    \<longrightarrow> (\<forall>provs d. map_of (cache s) ?ck = Some provs
                           \<longrightarrow> map_of provs p = Some d
                           \<longrightarrow> (\<exists>provs'. map_of (cache s') ?ck = Some provs'
                                  \<and> map_of provs' p = Some d)))"
    proof (cases "int (clock s (Suc i)) - int t > provideValidity s")
      case True
      with i have kb: "key \<in> set batch" by simp
      with st have ne: "deleted \<noteq> []" by (rule staged_nonempty)
      have gone: "key \<notin> fst ` set (datastore s')"
        unfolding d' using ne kb by auto
      from corr [of p c] kb parse have "p \<in> set (deleted_peers deleted c)" by blast
      then obtain peers where peers: "map_of deleted c = Some peers" "p \<in> set peers"
        by (cases "map_of deleted c") (simp_all add: deleted_peers_def)
      have "p \<notin> fst ` set provs" if "map_of (cache s') ?ck = Some provs" for provs
      proof -
        from that obtain provs0 where "provs = fold AList.delete peers provs0"
          unfolding cache' peers(1) by (auto split: option.splits if_splits)
        then have "map_of provs p = None"
          using peers(2) by (simp add: map_of_fold_delete)
        then show ?thesis by (simp add: map_of_eq_None_iff)
      qed
      with gone True show ?thesis by simp
    next
      case False
      with i have kb: "key \<notin> set batch" by simp
      have kept: "map_of (datastore s') key = Some val"
        unfolding d' using kb stored by (simp add: map_of_filter_keys)
      have cached: "\<exists>provs'. map_of (cache s') ?ck = Some provs' \<and> map_of provs' p = Some d"
        if unique: "\<forall>(key', val') \<in> set (datastore s).
                        prefix pfx key' \<longrightarrow> parseProviderKey key' = Inr (c, p) \<longrightarrow> key' = key"
          and provs: "map_of (cache s) ?ck = Some provs" "map_of provs p = Some d" for provs d
      proof -
        have no: "p \<notin> set (deleted_peers deleted c)"
        proof
          assume "p \<in> set (deleted_peers deleted c)"
          with corr [of p c] obtain key' where k': "key' \<in> set batch"
            and p': "parseProviderKey key' = Inr (c, p)" by blast
          from batch_fold [OF f] k' have "key' \<in> fst ` set ?es" by auto
          then obtain val' where "(key', val') \<in> set (datastore s)" "prefix pfx key'" by auto
          with unique p' have "key' = key" by blast
          with k' kb show False by simp
        qed
        show ?thesis
        proof (cases "map_of deleted c")
          case None
          with provs show ?thesis unfolding cache' by simp
        next
          case (Some peers)
          with no have "p \<notin> set peers" by (simp add: deleted_peers_def)
          then have m: "map_of (fold AList.delete peers provs) p = Some d"
            using provs(2) by (simp add: map_of_fold_delete)
          then have "fold AList.delete peers provs \<noteq> []" by auto
          with Some provs(1) m show ?thesis unfolding cache' by simp
        qed
      qed
      with kept False show ?thesis by simp
    qed
  then show ?thesis
    unfolding Let_def i_def .
qed


theorem sweep_expiry_witness:
  "fst (cleanup dht sweep_example) = Inr ()
   \<and> distinct (map fst (datastore sweep_example))
   \<and> length (cache sweep_example) \<le> cacheSize sweep_example
   \<and> (''/dht/provider/ca/p1'', [0]) \<in> set (datastore sweep_example)
   \<and> prefix dht ''/dht/provider/ca/p1''
   \<and> parseProviderKey ''/dht/provider/ca/p1'' = Inr (''ca'', ''p1'')
   \<and> readTime [0] = Inr (Date (Some 0))
   \<and> int (clock sweep_example 1) - int 0 > provideValidity sweep_example
   \<and> datastore (snd (cleanup dht sweep_example)) = [(''/dht/provider/ca/p2'', [196, 19])]
   \<and> cache (snd (cleanup dht sweep_example)) = [(''/dht/provider/ca'', [(''p2'', Date (Some 2500))])]
   \<and> ''/dht/provider/ca/p1'' \<notin> fst ` set (datastore (snd (cleanup dht sweep_example)))"
proof -
  let ?s' = "snd (cleanup dht sweep_example)"
  have ok: "fst (cleanup dht sweep_example) = Inr ()"
    by (simp add: sweep_example_def eval_defs)
  then have swept: "cleanup dht sweep_example = (Inr (), ?s')"
    by (simp add: prod_eq_iff)
  have keys: "distinct (map fst (datastore sweep_example))"
    by (simp add: sweep_example_def eval_defs)
  have bounded: "length (cache sweep_example) \<le> cacheSize sweep_example"
    by (simp add: sweep_example_def eval_defs)
  have entry: "(''/dht/provider/ca/p1'', [0]) \<in> set (datastore sweep_example)"
    "prefix dht ''/dht/provider/ca/p1''"
    by (simp_all add: sweep_example_def eval_defs)
  have parse: "parseProviderKey ''/dht/provider/ca/p1'' = Inr (''ca'', ''p1'')"
    by (simp add: eval_defs)
  have time: "readTime [0] = Inr (Date (Some 0))"
    by (simp add: eval_defs)
  have first: "takeWhile (\<lambda>(k, v). k \<noteq> ''/dht/provider/ca/p1'')
                 (filter (\<lambda>(key, val). prefix dht key) (datastore sweep_example)) = []"
    by (simp add: sweep_example_def eval_defs)
  have expired: "int (clock sweep_example 1) - int 0 > provideValidity sweep_example"
    by (simp add: sweep_example_def eval_defs)
  have store: "datastore ?s' = [(''/dht/provider/ca/p2'', [196, 19])]"
    by (simp add: sweep_example_def eval_defs)
  have cached: "cache ?s' = [(''/dht/provider/ca'', [(''p2'', Date (Some 2500))])]"
    by (simp add: sweep_example_def eval_defs)
  from sweep_expiry [OF swept keys bounded entry parse time] expired
  have gone: "''/dht/provider/ca/p1'' \<notin> fst ` set (datastore ?s')"
    unfolding first Let_def by simp
  show ?thesis
    by (intro conjI) (rule ok, rule keys, rule bounded, rule entry(1), rule entry(2), rule parse,
        rule time, rule expired, rule store, rule cached, rule gone)
qed

section \<open>Coherence of the cache with the datastore\<close>

lemma load_entries_fold:
  "list_all readable es \<Longrightarrow>
   load_entries es providers = Inr (fold (\<lambda>(p, d). AList.update p d) (parsed es) providers)"
proof (induction es arbitrary: providers)
  case Nil
  show ?case by (simp add: parsed_def)
next
  case (Cons entry es)
  obtain key val where entry: "entry = (key, val)" by (cases entry)
  from Cons.prems have "readable (key, val)" and rest: "list_all readable es"
    by (simp_all add: entry)
  then obtain c p time where r: "parseProviderKey key = Inr (c, p)" "readTime val = Inr time"
    by (auto simp: readable_def split: sum.splits)
  have "parsed (entry # es) = (p, time) # parsed es"
    by (simp add: parsed_def entry key_peer_def val_date_def r)
  with Cons.IH [OF rest] r show ?case by (simp add: entry)
qed

lemma load_entries_all_readable:
  "load_entries es providers = Inr loaded \<Longrightarrow> list_all readable es"
proof (induction es arbitrary: providers)
  case Nil
  show ?case by simp
next
  case (Cons entry es)
  obtain key val where entry: "entry = (key, val)" by (cases entry)
  from Cons.prems obtain c p time where
    r: "parseProviderKey key = Inr (c, p)" "readTime val = Inr time"
    and rest: "load_entries es (AList.update p time providers) = Inr loaded"
    by (auto simp: entry split: sum.splits)
  from rest have "list_all readable es" by (rule Cons.IH)
  moreover from r have "readable (key, val)" by (simp add: readable_def)
  ultimately show ?case by (simp add: entry)
qed

lemma update_fresh: "k \<notin> fst ` set al \<Longrightarrow> AList.update k v al = al @ [(k, v)]"
  by (induction al) auto

lemma fold_update_fresh:
  "distinct (map fst pds) \<Longrightarrow> fst ` set pds \<inter> fst ` set acc = {} \<Longrightarrow>
   fold (\<lambda>(p, d). AList.update p d) pds acc = acc @ pds"
proof (induction pds arbitrary: acc)
  case Nil
  show ?case by simp
next
  case (Cons pd pds)
  obtain p d where pd: "pd = (p, d)" by (cases pd)
  from Cons.prems have fresh: "p \<notin> fst ` set acc" and dist: "distinct (map fst pds)"
    and p: "p \<notin> fst ` set pds" and disj: "fst ` set pds \<inter> fst ` set acc = {}"
    by (auto simp: pd)
  have "fst ` set pds \<inter> fst ` set (acc @ [(p, d)]) = {}"
    using disj p by auto
  from Cons.IH [OF dist this] fresh show ?case
    by (simp add: pd update_fresh)
qed

lemma load_entries_parsed:
  assumes "load_entries es [] = Inr loaded" and "distinct (map fst (parsed es))"
  shows "loaded = parsed es"
proof -
  from assms(1) have "list_all readable es" by (rule load_entries_all_readable)
  from load_entries_fold [OF this, of "[]"] assms(1)
  have "loaded = fold (\<lambda>(p, d). AList.update p d) (parsed es) []" by simp
  also have "\<dots> = [] @ parsed es"
    using assms(2) by (intro fold_update_fresh) simp_all
  finally show ?thesis by simp
qed

lemma load_entries_of_readable:
  assumes "list_all readable es" and "distinct (map fst (parsed es))"
  shows "load_entries es [] = Inr (parsed es)"
proof -
  have "fold (\<lambda>(p, d). AList.update p d) (parsed es) [] = [] @ parsed es"
    using assms(2) by (intro fold_update_fresh) simp_all
  with load_entries_fold [OF assms(1), of "[]"] show ?thesis by simp
qed

lemma parse_wf_key:
  assumes "length (split_on (CHR ''/'') pfx) = 3"
    and "CHR ''/'' \<notin> set c" and "CHR ''/'' \<notin> set p"
  shows "parseProviderKey (pfx @ ''/'' @ c @ ''/'' @ p) = Inr (c, p)"
proof -
  have "split_on (CHR ''/'') (pfx @ ''/'' @ c @ ''/'' @ p) = split_on (CHR ''/'') pfx @ [c, p]"
    using assms(2,3) by (simp add: split_on_append split_on_no_sep)
  then show ?thesis
    using assms(1) by (simp add: parseProviderKey_def Let_def nth_append)
qed

lemma key_peer_wf_key:
  assumes "length (split_on (CHR ''/'') pfx) = 3"
    and "CHR ''/'' \<notin> set c" and "CHR ''/'' \<notin> set p"
  shows "key_peer (pfx @ ''/'' @ c @ ''/'' @ p) = p"
  using parse_wf_key [OF assms] by (simp add: key_peer_def)

lemma prefix_same_length: "prefix xs (ys @ zs) \<Longrightarrow> length xs = length ys \<Longrightarrow> xs = ys"
  by (auto simp: prefix_def append_eq_append_conv)

lemma prefix_cid_key:
  assumes "wf_cid n c" and "wf_cid n c'"
  shows "prefix (pfx @ ''/'' @ c) (pfx @ ''/'' @ c' @ ''/'' @ p) \<longleftrightarrow> c = c'"
proof
  assume "prefix (pfx @ ''/'' @ c) (pfx @ ''/'' @ c' @ ''/'' @ p)"
  then have "prefix c (c' @ ''/'' @ p)" by simp
  moreover from assms have "length c = length c'" by (simp add: wf_cid_def)
  ultimately show "c = c'" by (rule prefix_same_length)
next
  assume "c = c'"
  then show "prefix (pfx @ ''/'' @ c) (pfx @ ''/'' @ c' @ ''/'' @ p)" by simp
qed

lemma prefix_makeProviderKey: "prefix pfx (makeProviderKey pfx cid)"
  by (simp add: makeProviderKey_def)

lemma under_cid_form:
  assumes wf: "store_wf n pfx ds" and c: "wf_cid n c"
    and mem: "(key, val) \<in> set ds" and under: "prefix (pfx @ ''/'' @ c) key"
  shows "\<exists>p. key = pfx @ ''/'' @ c @ ''/'' @ p \<and> CHR ''/'' \<notin> set p"
proof -
  from under have "prefix pfx key" by (auto simp: prefix_def)
  with wf mem have "wf_key n pfx key" by (auto simp: store_wf_def)
  then obtain c' p where key: "key = pfx @ ''/'' @ c' @ ''/'' @ p" and c': "wf_cid n c'"
    and p: "CHR ''/'' \<notin> set p" by (auto simp: wf_key_def)
  from under have "c = c'" unfolding key by (simp only: prefix_cid_key [OF c c'])
  with key p show ?thesis by blast
qed

lemma filter_update_in:
  "P k \<Longrightarrow> filter (\<lambda>(k, v). P k) (AList.update k v al) = AList.update k v (filter (\<lambda>(k, v). P k) al)"
  by (induction al) auto

lemma filter_update_out:
  "\<not> P k \<Longrightarrow> filter (\<lambda>(k, v). P k) (AList.update k v al) = filter (\<lambda>(k, v). P k) al"
  by (induction al) auto

lemma map_update_inj:
  "inj_on f (insert k (fst ` set al)) \<Longrightarrow>
   map (\<lambda>(k, v). (f k, g v)) (AList.update k v al)
   = AList.update (f k) (g v) (map (\<lambda>(k, v). (f k, g v)) al)"
proof (induction al)
  case Nil
  show ?case by simp
next
  case (Cons x al)
  obtain k' v' where x: "x = (k', v')" by (cases x)
  from Cons.prems have inj: "inj_on f (insert k (fst ` set al))"
    by (rule inj_on_subset) auto
  from Cons.prems have "f k' = f k \<longleftrightarrow> k' = k"
    by (auto simp: x inj_on_def)
  with Cons.IH [OF inj] show ?case by (auto simp: x)
qed

lemma set_update_distinct:
  "distinct (map fst al) \<Longrightarrow>
   set (AList.update k v al) = insert (k, v) {(k', v'). (k', v') \<in> set al \<and> k' \<noteq> k}"
proof (induction al)
  case Nil
  show ?case by simp
next
  case (Cons x al)
  obtain k' v' where x: "x = (k', v')" by (cases x)
  from Cons.prems have dist: "distinct (map fst al)" and fresh: "k' \<notin> fst ` set al"
    by (simp_all add: x)
  show ?case
  proof (cases "k' = k")
    case True
    with fresh have "{(k', v'). (k', v') \<in> set al \<and> k' \<noteq> k} = set al" by force
    with True show ?thesis by (auto simp: x)
  next
    case False
    with Cons.IH [OF dist] show ?thesis by (auto simp: x)
  qed
qed

lemma set_fold_delete:
  "set (fold AList.delete peers provs) = {(p, d). (p, d) \<in> set provs \<and> p \<notin> set peers}"
proof (induction peers arbitrary: provs)
  case Nil
  show ?case by simp
next
  case (Cons peer peers)
  have "set (fold AList.delete (peer # peers) provs)
        = set (fold AList.delete peers (AList.delete peer provs))" by simp
  also have "\<dots> = {(p, d). (p, d) \<in> set (AList.delete peer provs) \<and> p \<notin> set peers}"
    by (rule Cons.IH)
  also have "\<dots> = {(p, d). (p, d) \<in> set provs \<and> p \<notin> set (peer # peers)}"
    by (auto simp: AList.delete_eq)
  finally show ?case .
qed

lemma under_cid_peers:
  assumes wf: "store_wf n pfx ds" and c: "wf_cid n c"
    and pfx: "length (split_on (CHR ''/'') pfx) = 3"
  shows "\<forall>(key, val) \<in> set (filter (\<lambda>(key, val). prefix (pfx @ ''/'' @ c) key) ds).
           key = pfx @ ''/'' @ c @ ''/'' @ key_peer key \<and> CHR ''/'' \<notin> set (key_peer key)"
proof (intro ballI, clarify)
  fix key val
  assume "(key, val) \<in> set (filter (\<lambda>(key, val). prefix (pfx @ ''/'' @ c) key) ds)"
  then have "(key, val) \<in> set ds" "prefix (pfx @ ''/'' @ c) key" by simp_all
  from under_cid_form [OF wf c this] obtain p
    where key: "key = pfx @ ''/'' @ c @ ''/'' @ p" and p: "CHR ''/'' \<notin> set p" by blast
  from c have "CHR ''/'' \<notin> set c" by (simp add: wf_cid_def)
  from key_peer_wf_key [OF pfx this p] have "key_peer key = p" by (simp only: key)
  with key p show "key = pfx @ ''/'' @ c @ ''/'' @ key_peer key \<and> CHR ''/'' \<notin> set (key_peer key)"
    by simp
qed

lemma under_cid_inj:
  assumes wf: "store_wf n pfx ds" and c: "wf_cid n c"
    and pfx: "length (split_on (CHR ''/'') pfx) = 3"
  shows "inj_on key_peer (fst ` set (filter (\<lambda>(key, val). prefix (pfx @ ''/'' @ c) key) ds))"
proof (rule inj_onI)
  fix k1 k2
  let ?es = "filter (\<lambda>(key, val). prefix (pfx @ ''/'' @ c) key) ds"
  assume "k1 \<in> fst ` set ?es" "k2 \<in> fst ` set ?es" and eq: "key_peer k1 = key_peer k2"
  with under_cid_peers [OF wf c pfx]
  have "k1 = pfx @ ''/'' @ c @ ''/'' @ key_peer k1" "k2 = pfx @ ''/'' @ c @ ''/'' @ key_peer k2"
    by fastforce+
  with eq show "k1 = k2" by simp
qed

lemma under_cid_distinct:
  assumes wf: "store_wf n pfx ds" and c: "wf_cid n c"
    and pfx: "length (split_on (CHR ''/'') pfx) = 3"
  shows "distinct (map fst (parsed (filter (\<lambda>(key, val). prefix (pfx @ ''/'' @ c) key) ds)))"
proof -
  let ?es = "filter (\<lambda>(key, val). prefix (pfx @ ''/'' @ c) key) ds"
  have "map fst (parsed ?es) = map key_peer (map fst ?es)"
    by (simp add: parsed_def case_prod_beta)
  moreover have "distinct (map fst ?es)"
    using wf by (auto simp: store_wf_def intro: distinct_map_filter)
  moreover have "inj_on key_peer (set (map fst ?es))"
    using under_cid_inj [OF wf c pfx] by simp
  ultimately show ?thesis by (simp only: distinct_map)
qed

lemma in_step_iff:
  assumes wf: "store_wf n pfx ds" and c: "wf_cid n c"
    and pfx: "length (split_on (CHR ''/'') pfx) = 3"
  shows "in_step ds (pfx @ ''/'' @ c, provs)
         \<longleftrightarrow> list_all readable (filter (\<lambda>(key, val). prefix (pfx @ ''/'' @ c) key) ds)
             \<and> set (parsed (filter (\<lambda>(key, val). prefix (pfx @ ''/'' @ c) key) ds)) = set provs"
proof -
  let ?es = "filter (\<lambda>(key, val). prefix (pfx @ ''/'' @ c) key) ds"
  note dist = under_cid_distinct [OF wf c pfx]
  show ?thesis
  proof
    assume "in_step ds (pfx @ ''/'' @ c, provs)"
    then obtain loaded where l: "load_entries ?es [] = Inr loaded" and eq: "set loaded = set provs"
      by (auto simp: in_step_def split: sum.splits)
    from l dist have "loaded = parsed ?es" by (rule load_entries_parsed)
    with eq load_entries_all_readable [OF l]
    show "list_all readable ?es \<and> set (parsed ?es) = set provs" by simp
  next
    assume "list_all readable ?es \<and> set (parsed ?es) = set provs"
    with load_entries_of_readable [OF _ dist]
    show "in_step ds (pfx @ ''/'' @ c, provs)" by (simp add: in_step_def)
  qed
qed

lemma set_update_subset: "set (AList.update k v al) \<subseteq> insert (k, v) (set al)"
  by (induction al) auto

lemma store_wf_update:
  assumes "store_wf n pfx ds" and "wf_key n pfx key"
  shows "store_wf n pfx (AList.update key v ds)"
  unfolding store_wf_def
proof (intro conjI ballI)
  show "distinct (map fst (AList.update key v ds))"
    using assms(1) by (auto simp: store_wf_def intro: AList.distinct_update)
next
  fix entry
  assume "entry \<in> set (AList.update key v ds)"
  with set_update_subset [of key v ds] have "entry = (key, v) \<or> entry \<in> set ds" by auto
  with assms show "case entry of (key, val) \<Rightarrow> prefix pfx key \<longrightarrow> wf_key n pfx key"
    by (auto simp: store_wf_def)
qed

lemma store_wf_filter: "store_wf n pfx ds \<Longrightarrow> store_wf n pfx (filter P ds)"
  by (auto simp: store_wf_def intro: distinct_map_filter)

lemma in_step_put_other:
  assumes c: "wf_cid n c" and c': "wf_cid n c'" and neq: "c' \<noteq> c"
  shows "in_step (AList.update (pfx @ ''/'' @ c' @ ''/'' @ p) v ds) (pfx @ ''/'' @ c, provs)
         = in_step ds (pfx @ ''/'' @ c, provs)"
proof -
  have "\<not> prefix (pfx @ ''/'' @ c) (pfx @ ''/'' @ c' @ ''/'' @ p)"
    using neq by (simp only: prefix_cid_key [OF c c'])
  then have "filter (\<lambda>(key, val). prefix (pfx @ ''/'' @ c) key)
               (AList.update (pfx @ ''/'' @ c' @ ''/'' @ p) v ds)
             = filter (\<lambda>(key, val). prefix (pfx @ ''/'' @ c) key) ds"
    by (rule filter_update_out [where P = "prefix (pfx @ ''/'' @ c)"])
  then show ?thesis by (simp add: in_step_def)
qed

lemma in_step_put_same:
  assumes wf: "store_wf n pfx ds" and c: "wf_cid n c" and p: "CHR ''/'' \<notin> set p"
    and pfx: "length (split_on (CHR ''/'') pfx) = 3"
    and step: "in_step ds (pfx @ ''/'' @ c, provs)"
    and dist: "distinct (map fst provs)"
    and time: "readTime v = Inr d"
  shows "in_step (AList.update (pfx @ ''/'' @ c @ ''/'' @ p) v ds)
           (pfx @ ''/'' @ c, AList.update p d provs)"
proof -
  let ?ck = "pfx @ ''/'' @ c"
  let ?key = "pfx @ ''/'' @ c @ ''/'' @ p"
  let ?es = "filter (\<lambda>(key, val). prefix ?ck key) ds"
  let ?es' = "filter (\<lambda>(key, val). prefix ?ck key) (AList.update ?key v ds)"
  from c have cs: "CHR ''/'' \<notin> set c" by (simp add: wf_cid_def)
  have canon: "wf_key n pfx ?key"
    using c p by (auto simp: wf_key_def)
  then have wf': "store_wf n pfx (AList.update ?key v ds)"
    using wf by (intro store_wf_update)
  from step have r: "list_all readable ?es" and eq: "set (parsed ?es) = set provs"
    by (simp_all only: in_step_iff [OF wf c pfx])
  have under: "prefix ?ck ?key" by simp
  have es': "?es' = AList.update ?key v ?es"
    using under by (rule filter_update_in [where P = "prefix ?ck"])
  have kp: "key_peer ?key = p" using pfx cs p by (rule key_peer_wf_key)
  have vd: "val_date v = d" by (simp add: val_date_def time)
  have "readable (?key, v)"
    using parse_wf_key [OF pfx cs p] time by (simp add: readable_def)
  with r have r': "list_all readable ?es'"
    unfolding es' using set_update_subset [of ?key v ?es] by (auto simp: list_all_iff)
  have inj: "inj_on key_peer (insert ?key (fst ` set ?es))"
  proof -
    have "?key \<in> fst ` set ?es'"
      unfolding es' by (simp add: AList.dom_update)
    moreover have "fst ` set ?es \<subseteq> fst ` set ?es'"
      unfolding es' by (auto simp: AList.dom_update)
    ultimately have "insert ?key (fst ` set ?es) \<subseteq> fst ` set ?es'" by simp
    with under_cid_inj [OF wf' c pfx] show ?thesis by (rule inj_on_subset)
  qed
  have "parsed ?es' = AList.update (key_peer ?key) (val_date v) (parsed ?es)"
    unfolding es' parsed_def using inj by (rule map_update_inj)
  then have ps: "parsed ?es' = AList.update p d (parsed ?es)"
    by (simp only: kp vd)
  have "set (parsed ?es') = set (AList.update p d provs)"
    unfolding ps
    using set_update_distinct [OF under_cid_distinct [OF wf c pfx], of p d]
      set_update_distinct [OF dist, of p d] eq
    by simp
  with r' show ?thesis
    by (simp only: in_step_iff [OF wf' c pfx])
qed

lemma set_lru_set: "set (lru_set capacity k v c) \<subseteq> insert (k, v) {e \<in> set c. fst e \<noteq> k}"
proof -
  have "set (lru_set capacity k v c) \<subseteq> set ((k, v) # AList.delete k c)"
    unfolding lru_set_def by (rule set_take_subset)
  then show ?thesis by (auto simp: AList.delete_eq)
qed

lemma distinct_touch:
  assumes "distinct (map fst c)"
  shows "distinct (map fst ((k, v) # AList.delete k c))"
proof -
  have "distinct (map fst (AList.delete k c))"
    using assms by (rule AList.distinct_delete)
  moreover have "k \<notin> fst ` set (AList.delete k c)"
    by (auto simp: AList.delete_eq)
  ultimately show ?thesis by simp
qed

lemma distinct_lru_set: "distinct (map fst c) \<Longrightarrow> distinct (map fst (lru_set capacity k v c))"
proof -
  assume "distinct (map fst c)"
  then have "distinct (map fst ((k, v) # AList.delete k c))"
    by (rule distinct_touch)
  then have "distinct (take capacity (map fst ((k, v) # AList.delete k c)))"
    by (rule distinct_take)
  then show ?thesis by (simp only: lru_set_def take_map)
qed

lemma set_touch: "map_of c k = Some v \<Longrightarrow> set ((k, v) # AList.delete k c) \<subseteq> set c"
  using set_delete_subset [of k c] by (auto dest: map_of_SomeD)

lemma cache_wf_touch:
  assumes "cache_wf n pfx c" and "map_of c k = Some v"
  shows "cache_wf n pfx ((k, v) # AList.delete k c)"
  using assms(1) set_touch [OF assms(2)] distinct_touch [of c k v]
  unfolding cache_wf_def by blast

lemma cache_wf_lru_set:
  assumes "cache_wf n pfx c" and "wf_cid n cid" and "distinct (map fst provs)"
  shows "cache_wf n pfx (lru_set capacity (pfx @ ''/'' @ cid) provs c)"
  unfolding cache_wf_def
proof (intro conjI ballI)
  show "distinct (map fst (lru_set capacity (pfx @ ''/'' @ cid) provs c))"
    using assms(1) by (auto simp: cache_wf_def intro: distinct_lru_set)
next
  fix entry
  assume "entry \<in> set (lru_set capacity (pfx @ ''/'' @ cid) provs c)"
  with set_lru_set [of capacity "pfx @ ''/'' @ cid" provs c]
  have "entry = (pfx @ ''/'' @ cid, provs) \<or> entry \<in> set c" by auto
  with assms show "case entry of (cacheKey, provs) \<Rightarrow>
           (\<exists>cid. wf_cid n cid \<and> cacheKey = pfx @ ''/'' @ cid) \<and> distinct (map fst provs)"
    by (auto simp: cache_wf_def)
qed

lemma makeProviderKey_text:
  "makeProviderKey pfx (OfCID cid) = pfx @ ''/'' @ multihash_base32 cid"
  "makeProviderKey pfx (OfString c) = pfx @ ''/'' @ c"
  by (simp_all add: makeProviderKey_def)

lemma getProvidersMap_inv:
  assumes inv: "registry_inv n pfx s" and c: "wf_cid n (multihash_base32 cid)"
    and g: "getProvidersMap pfx cid s = (r, s')"
  shows "registry_inv n pfx s'
         \<and> (\<forall>provs. r = Inr provs \<longrightarrow>
               in_step (datastore s') (pfx @ ''/'' @ multihash_base32 cid, provs)
               \<and> distinct (map fst provs))"
proof -
  let ?ck = "pfx @ ''/'' @ multihash_base32 cid"
  have ck: "makeProviderKey pfx (OfCID cid) = ?ck" by (rule makeProviderKey_text)
  from inv have wf: "store_wf n pfx (datastore s)" and len: "length (cache s) \<le> cacheSize s"
    and cwf: "cache_wf n pfx (cache s)" and clk: "\<forall>i. clock s i \<le> 8640000000000000"
    and coh: "list_all (in_step (datastore s)) (cache s)"
    by (simp_all add: registry_inv_def coherent_def)
  show ?thesis
  proof (cases "map_of (cache s) ?ck")
    case (Some provs)
    from g have r: "r = Inr provs"
      and s': "s' = s\<lparr>cache := (?ck, provs) # AList.delete ?ck (cache s)\<rparr>"
      unfolding getProvidersMap_hit [OF Some [folded ck]] ck by simp_all
    from Some have mem: "(?ck, provs) \<in> set (cache s)" by (rule map_of_SomeD)
    with coh have step: "in_step (datastore s) (?ck, provs)" by (simp add: list_all_iff)
    from mem cwf have dist: "distinct (map fst provs)" by (auto simp: cache_wf_def)
    have "list_all (in_step (datastore s)) ((?ck, provs) # AList.delete ?ck (cache s))"
      using coh set_touch [OF Some] by (auto simp: list_all_iff)
    moreover have "length ((?ck, provs) # AList.delete ?ck (cache s)) \<le> cacheSize s"
      using length_delete_present [OF Some] len by simp
    ultimately have "registry_inv n pfx s'"
      using wf clk cache_wf_touch [OF cwf Some]
      by (simp add: registry_inv_def coherent_def s')
    with r step dist show ?thesis by (simp add: s')
  next
    case None
    note miss = getProvidersMap_miss [OF None [folded ck], unfolded ck]
    show ?thesis
    proof (cases "faults s 0")
      case (Some cause)
      with g have r: "r = Inl (BackendFailure cause)"
        and s': "s' = s\<lparr>faults := \<lambda>n. faults s (Suc n)\<rparr>"
        unfolding miss by simp_all
      from inv have "registry_inv n pfx s'"
        by (simp add: registry_inv_def coherent_def s')
      with r show ?thesis by simp
    next
      case no_fault: None
      show ?thesis
      proof (cases "load_entries (filter (\<lambda>(key, val). prefix ?ck key) (datastore s)) []")
        case (Inl e)
        with g no_fault have r: "r = Inl e"
          and s': "s' = s\<lparr>faults := \<lambda>n. faults s (Suc n)\<rparr>"
          unfolding miss by simp_all
        from inv have "registry_inv n pfx s'"
          by (simp add: registry_inv_def coherent_def s')
        with r show ?thesis by simp
      next
        case (Inr loaded)
        with g no_fault have r: "r = Inr loaded"
          and s': "s' = s\<lparr>faults := \<lambda>n. faults s (Suc n),
                          cache := lru_set (cacheSize s) ?ck loaded (cache s)\<rparr>"
          unfolding miss by simp_all
        from Inr have dist: "distinct (map fst loaded)"
          by (rule load_entries_distinct) simp
        have step: "in_step (datastore s) (?ck, loaded)"
          using Inr by (simp add: in_step_def)
        have "list_all (in_step (datastore s)) (lru_set (cacheSize s) ?ck loaded (cache s))"
          using coh step set_lru_set [of "cacheSize s" ?ck loaded "cache s"]
          by (auto simp: list_all_iff)
        then have "registry_inv n pfx s'"
          using wf clk cache_wf_lru_set [OF cwf c dist] length_lru_set
          by (simp add: registry_inv_def coherent_def s')
        with r step dist show ?thesis by (simp add: s')
      qed
    qed
  qed
qed

lemma providerEntryKey_text:
  "providerEntryKey pfx cid peer
   = pfx @ ''/'' @ multihash_base32 cid @ ''/'' @ peer_toString peer"
  by (simp add: providerEntryKey_def makeProviderKey_def)

lemma addProvider_inv:
  assumes inv: "registry_inv n pfx s" and c: "wf_cid n (multihash_base32 cid)"
    and p: "CHR ''/'' \<notin> set (peer_toString peer)"
    and pfx: "length (split_on (CHR ''/'') pfx) = 3"
    and add: "addProvider pfx cid peer s = (Inr u, s')"
  shows "registry_inv n pfx s'"
proof -
  let ?c = "multihash_base32 cid"
  let ?p = "peer_toString peer"
  let ?ck = "pfx @ ''/'' @ ?c"
  let ?key = "pfx @ ''/'' @ ?c @ ''/'' @ ?p"
  let ?now = "clock s 0"
  from addProvider_result [OF add] obtain provs s1 where
    g: "getProvidersMap pfx cid s = (Inr provs, s1)"
    and d': "datastore s' = AList.update ?key (varint_encode ?now) (datastore s)"
    and c': "cache s' = lru_set (cacheSize s) ?ck (AList.update ?p (Date (Some ?now)) provs) (cache s1)"
    and k': "clock s' = (\<lambda>n. clock s (Suc n))"
    and z': "cacheSize s' = cacheSize s"
    unfolding providerEntryKey_text makeProviderKey_text by blast
  from getProvidersMap_fields [OF g] have d1: "datastore s1 = datastore s" by simp
  from getProvidersMap_inv [OF inv c g]
  have inv1: "registry_inv n pfx s1"
    and step: "in_step (datastore s) (?ck, provs)" and dist: "distinct (map fst provs)"
    by (simp_all add: d1)
  from inv1 have wf: "store_wf n pfx (datastore s)" and cwf: "cache_wf n pfx (cache s1)"
    and coh: "list_all (in_step (datastore s)) (cache s1)"
    by (simp_all add: registry_inv_def coherent_def d1)
  from inv have clk: "\<forall>i. clock s i \<le> 8640000000000000" by (simp add: registry_inv_def)
  let ?provs' = "AList.update ?p (Date (Some ?now)) provs"
  let ?ds' = "AList.update ?key (varint_encode ?now) (datastore s)"
  have canon: "wf_key n pfx ?key" using c p by (auto simp: wf_key_def)
  have time: "readTime (varint_encode ?now) = Inr (Date (Some ?now))"
    using clk by (intro readTime_encode) simp
  have dist': "distinct (map fst ?provs')" using dist by (rule AList.distinct_update)
  have new: "in_step ?ds' (?ck, ?provs')"
    using wf c p pfx step dist time by (rule in_step_put_same)
  have "in_step ?ds' entry" if mem: "entry \<in> set (cache s')" for entry
  proof -
    from mem set_lru_set [of "cacheSize s" ?ck ?provs' "cache s1"]
    consider "entry = (?ck, ?provs')" | "entry \<in> set (cache s1)" "fst entry \<noteq> ?ck"
      unfolding c' by auto
    then show ?thesis
    proof cases
      case 1
      with new show ?thesis by simp
    next
      case 2
      obtain ck0 provs0 where entry: "entry = (ck0, provs0)" by (cases entry)
      from 2(1) cwf obtain c0 where c0: "wf_cid n c0" and ck0: "ck0 = pfx @ ''/'' @ c0"
        by (auto simp: cache_wf_def entry)
      from 2(2) have "?c \<noteq> c0" by (auto simp: entry ck0)
      from in_step_put_other [OF c0 c this, of pfx ?p "varint_encode ?now" "datastore s" provs0]
      have "in_step ?ds' entry = in_step (datastore s) entry"
        by (simp only: entry ck0)
      with coh 2(1) show ?thesis by (simp add: list_all_iff)
    qed
  qed
  then have "coherent s'" by (simp add: coherent_def d' list_all_iff)
  moreover have "store_wf n pfx (datastore s')"
    unfolding d' using wf canon by (rule store_wf_update)
  moreover have "cache_wf n pfx (cache s')"
    unfolding c' using cwf c dist' by (rule cache_wf_lru_set)
  moreover have "length (cache s') \<le> cacheSize s'"
    unfolding c' z' by (rule length_lru_set)
  moreover have "\<forall>i. clock s' i \<le> 8640000000000000"
    using clk by (simp add: k')
  ultimately show ?thesis by (simp add: registry_inv_def)
qed

lemma getProviders_inv:
  assumes "registry_inv n pfx s" and "wf_cid n (multihash_base32 cid)"
  shows "registry_inv n pfx (snd (getProviders dec pfx cid s))"
proof -
  obtain r s1 where g: "getProvidersMap pfx cid s = (r, s1)"
    by (cases "getProvidersMap pfx cid s")
  from getProvidersMap_inv [OF assms g] show ?thesis
    by (cases r) (simp_all add: getProviders_def g)
qed

lemma fold_clock_le:
  "(\<forall>i. clk i \<le> (B::nat)) \<Longrightarrow>
   fold (cleanup_entry validity) es (batch, deleted, clk) = (batch', deleted', clk') \<Longrightarrow>
   (\<forall>i. clk' i \<le> B)"
proof (induction es arbitrary: batch deleted clk)
  case Nil
  then show ?case by simp
next
  case (Cons entry es)
  obtain key val where entry: "entry = (key, val)" by (cases entry)
  obtain b1 d1 clk1 where st: "cleanup_entry validity (key, val) (batch, deleted, clk) = (b1, d1, clk1)"
    by (cases "cleanup_entry validity (key, val) (batch, deleted, clk)") auto
  from batch_step [OF st] Cons.prems(1) have "\<forall>i. clk1 i \<le> B" by auto
  moreover from Cons.prems(2) have "fold (cleanup_entry validity) es (b1, d1, clk1) = (batch', deleted', clk')"
    by (simp add: entry st)
  ultimately show ?case by (rule Cons.IH)
qed

lemma cleanup_clock_le:
  assumes "\<forall>i. clock s i \<le> (B::nat)"
  shows "\<forall>i. clock (snd (cleanup pfx s)) i \<le> B"
proof -
  obtain batch deleted clk where
    f: "fold (cleanup_entry (provideValidity s))
             (filter (\<lambda>(key, val). prefix pfx key) (datastore s))
             ([], [], \<lambda>n. clock s (Suc n)) = (batch, deleted, clk)"
    by (cases "fold (cleanup_entry (provideValidity s))
             (filter (\<lambda>(key, val). prefix pfx key) (datastore s))
             ([], [], \<lambda>n. clock s (Suc n))") auto
  from assms have "\<forall>i. clock s (Suc i) \<le> B" by simp
  from fold_clock_le [OF this f] have clk: "\<forall>i. clk i \<le> B" .
  show ?thesis
    using assms clk f
    by (cases "faults s 0"; cases "deleted = []"; cases "faults s (Suc 0)";
        simp add: cleanup_def Let_def Date_now_def next_reading_def store_query_def
          batch_commit_def next_fault_def)
qed

lemma cache_wf_subset:
  "cache_wf n pfx c \<Longrightarrow> set c' \<subseteq> set c \<Longrightarrow> distinct (map fst c') \<Longrightarrow> cache_wf n pfx c'"
  unfolding cache_wf_def by blast

lemma cache_wf_clear_expired:
  assumes "cache_wf n pfx c"
  shows "cache_wf n pfx (clear_expired pfx capacity entry c)"
proof -
  obtain cid peers where entry: "entry = (cid, peers)" by (cases entry)
  let ?key = "makeProviderKey pfx (OfString cid)"
  show ?thesis
  proof (cases "map_of c ?key")
    case None
    with assms show ?thesis by (simp add: clear_expired_def entry lru_get_def)
  next
    case (Some provs)
    let ?c' = "(?key, provs) # AList.delete ?key c"
    let ?provs' = "fold AList.delete peers provs"
    from assms Some have cwf': "cache_wf n pfx ?c'" by (rule cache_wf_touch)
    from Some have "(?key, provs) \<in> set c" by (rule map_of_SomeD)
    with assms obtain c0 where c0: "wf_cid n c0" and key: "?key = pfx @ ''/'' @ c0"
      and dist: "distinct (map fst provs)" by (auto simp: cache_wf_def)
    from dist have dist': "distinct (map fst ?provs')" by (rule distinct_fold_delete)
    have rm: "cache_wf n pfx (lru_remove ?key ?c')"
    proof (rule cache_wf_subset [OF cwf'])
      show "set (lru_remove ?key ?c') \<subseteq> set ?c'"
        unfolding lru_remove_def by (rule set_delete_subset)
      show "distinct (map fst (lru_remove ?key ?c'))"
        unfolding lru_remove_def using cwf' by (auto simp: cache_wf_def intro: AList.distinct_delete)
    qed
    from cwf' c0 dist' have "cache_wf n pfx (lru_set capacity (pfx @ ''/'' @ c0) ?provs' ?c')"
      by (rule cache_wf_lru_set)
    then have st: "cache_wf n pfx (lru_set capacity ?key ?provs' ?c')"
      by (simp only: key)
    show ?thesis
      using Some rm st by (simp add: clear_expired_def entry lru_get_def Let_def)
  qed
qed

lemma cache_wf_fold_clear_expired:
  "cache_wf n pfx c \<Longrightarrow> cache_wf n pfx (fold (clear_expired pfx capacity) deleted c)"
  by (induction deleted arbitrary: c) (simp_all add: cache_wf_clear_expired)

lemma filter_filter_keys:
  "filter (\<lambda>(key, val). P key) (filter (\<lambda>(key, val). Q key) ds)
   = filter (\<lambda>(key, val). Q key) (filter (\<lambda>(key, val). P key) ds)"
  by (induction ds) auto

lemma sweep_in_step:
  assumes wf: "store_wf n pfx ds" and pfx: "length (split_on (CHR ''/'') pfx) = 3"
    and c: "wf_cid n c"
    and f: "fold (cleanup_entry validity) (filter (\<lambda>(key, val). prefix pfx key) ds) ([], [], clk0)
            = (batch, deleted, clk)"
    and step: "in_step ds (pfx @ ''/'' @ c, provs)"
  shows "in_step (filter (\<lambda>(key, val). key \<notin> set batch) ds)
           (pfx @ ''/'' @ c, fold AList.delete (deleted_peers deleted c) provs)"
proof -
  let ?ck = "pfx @ ''/'' @ c"
  let ?ds' = "filter (\<lambda>(key, val). key \<notin> set batch) ds"
  let ?es = "filter (\<lambda>(key, val). prefix ?ck key) ds"
  let ?es' = "filter (\<lambda>(key, val). prefix ?ck key) ?ds'"
  let ?peers = "deleted_peers deleted c"
  from c have cs: "CHR ''/'' \<notin> set c" by (simp add: wf_cid_def)
  have wf': "store_wf n pfx ?ds'" using wf by (rule store_wf_filter)
  from step have r: "list_all readable ?es" and eq: "set (parsed ?es) = set provs"
    by (simp_all only: in_step_iff [OF wf c pfx])
  have "staged [] []" by (simp add: staged_def deleted_peers_def)
  from this f have st: "staged batch deleted" by (rule staged_fold)
  then have corr: "\<And>c p. p \<in> set (deleted_peers deleted c)
               \<longleftrightarrow> (\<exists>key \<in> set batch. parseProviderKey key = Inr (c, p))"
    by (simp add: staged_def)
  have es': "?es' = filter (\<lambda>(key, val). key \<notin> set batch) ?es"
    by (rule filter_filter_keys)
  have form: "key = ?ck @ ''/'' @ key_peer key \<and> CHR ''/'' \<notin> set (key_peer key)"
    if "(key, val) \<in> set ?es" for key val
    using under_cid_peers [OF wf c pfx] that by fastforce
  have staged_iff: "key \<in> set batch \<longleftrightarrow> key_peer key \<in> set ?peers"
    if mem: "(key, val) \<in> set ?es" for key val
  proof
    from form [OF mem] have key: "key = pfx @ ''/'' @ c @ ''/'' @ key_peer key"
      and kp: "CHR ''/'' \<notin> set (key_peer key)" by simp_all
    from parse_wf_key [OF pfx cs kp] key
    have parse: "parseProviderKey key = Inr (c, key_peer key)" by simp
    {
      assume "key \<in> set batch"
      with parse corr [of "key_peer key" c] show "key_peer key \<in> set ?peers" by blast
    }
    assume "key_peer key \<in> set ?peers"
    with corr [of "key_peer key" c] obtain key' where k': "key' \<in> set batch"
      and p': "parseProviderKey key' = Inr (c, key_peer key)" by blast
    from batch_fold [OF f] k' obtain val' where "(key', val') \<in> set ds" "prefix pfx key'"
      by auto
    with wf have "wf_key n pfx key'" by (auto simp: store_wf_def)
    then obtain c'' p'' where key': "key' = pfx @ ''/'' @ c'' @ ''/'' @ p''"
      and c'': "CHR ''/'' \<notin> set c''" and p'': "CHR ''/'' \<notin> set p''"
      by (auto simp: wf_key_def wf_cid_def)
    from parse_wf_key [OF pfx c'' p''] p' have "c'' = c" "p'' = key_peer key"
      by (simp_all add: key')
    with key' key have "key' = key" by simp
    with k' show "key \<in> set batch" by simp
  qed
  have r': "list_all readable ?es'"
    using r unfolding es' by (auto simp: list_all_iff)
  have "set (parsed ?es') = {(p, d). (p, d) \<in> set (parsed ?es) \<and> p \<notin> set ?peers}"
  proof (intro set_eqI iffI)
    fix x
    assume "x \<in> set (parsed ?es')"
    then obtain key val where mem: "(key, val) \<in> set ?es" and nb: "key \<notin> set batch"
      and x: "x = (key_peer key, val_date val)"
      unfolding es' parsed_def by auto
    from staged_iff [OF mem] nb have "key_peer key \<notin> set ?peers" by simp
    moreover from mem have "(key_peer key, val_date val) \<in> set (parsed ?es)"
      unfolding parsed_def by force
    ultimately show "x \<in> {(p, d). (p, d) \<in> set (parsed ?es) \<and> p \<notin> set ?peers}"
      by (simp add: x)
  next
    fix x
    assume "x \<in> {(p, d). (p, d) \<in> set (parsed ?es) \<and> p \<notin> set ?peers}"
    then obtain key val where mem: "(key, val) \<in> set ?es"
      and x: "x = (key_peer key, val_date val)" and np: "key_peer key \<notin> set ?peers"
      unfolding parsed_def by auto
    from staged_iff [OF mem] np have "key \<notin> set batch" by simp
    with mem have "(key, val) \<in> set ?es'" unfolding es' by simp
    then show "x \<in> set (parsed ?es')"
      unfolding parsed_def x by force
  qed
  also have "\<dots> = {(p, d). (p, d) \<in> set provs \<and> p \<notin> set ?peers}"
    by (simp only: eq)
  also have "\<dots> = set (fold AList.delete ?peers provs)"
    by (simp only: set_fold_delete)
  finally have "set (parsed ?es') = set (fold AList.delete ?peers provs)" .
  with r' show ?thesis
    by (simp only: in_step_iff [OF wf' c pfx])
qed

lemma registry_inv_same:
  assumes "registry_inv n pfx s" and "datastore s' = datastore s" and "cache s' = cache s"
    and "cacheSize s' = cacheSize s" and "\<forall>i. clock s' i \<le> 8640000000000000"
  shows "registry_inv n pfx s'"
  using assms by (simp add: registry_inv_def coherent_def)

lemma cleanup_inv:
  assumes inv: "registry_inv n pfx s" and pfx: "length (split_on (CHR ''/'') pfx) = 3"
  shows "registry_inv n pfx (snd (cleanup pfx s))"
proof -
  let ?s' = "snd (cleanup pfx s)"
  let ?ds = "datastore s"
  from inv have wf: "store_wf n pfx ?ds" and len: "length (cache s) \<le> cacheSize s"
    and cwf: "cache_wf n pfx (cache s)" and clk: "\<forall>i. clock s i \<le> 8640000000000000"
    and coh: "list_all (in_step ?ds) (cache s)"
    by (simp_all add: registry_inv_def coherent_def)
  have size: "cacheSize ?s' = cacheSize s"
    using cleanup_bounded [of s pfx] len by (simp add: cache_bounded_def)
  have clk': "\<forall>i. clock ?s' i \<le> 8640000000000000"
    using clk by (rule cleanup_clock_le)
  obtain batch deleted clk1 where
    f: "fold (cleanup_entry (provideValidity s))
             (filter (\<lambda>(key, val). prefix pfx key) ?ds)
             ([], [], \<lambda>n. clock s (Suc n)) = (batch, deleted, clk1)"
    by (cases "fold (cleanup_entry (provideValidity s))
             (filter (\<lambda>(key, val). prefix pfx key) ?ds)
             ([], [], \<lambda>n. clock s (Suc n))") auto
  show ?thesis
  proof (cases "faults s 0")
    case (Some cause)
    from inv cleanup_query_failed(2,3) [OF Some] size clk' show ?thesis
      by (rule registry_inv_same)
  next
    case None
    note scanned = cleanup_scanned(2,3) [OF None f]
    show ?thesis
    proof (cases "deleted \<noteq> [] \<and> faults s 1 = None")
      case False
      then have "datastore ?s' = ?ds" "cache ?s' = cache s"
        unfolding scanned by auto
      with inv show ?thesis using size clk' by (rule registry_inv_same)
    next
      case True
      then have d': "datastore ?s' = filter (\<lambda>(key, val). key \<notin> set batch) ?ds"
        and c': "cache ?s' = fold (clear_expired pfx (cacheSize s)) deleted (cache s)"
        unfolding scanned by simp_all
      have "staged [] []" by (simp add: staged_def deleted_peers_def)
      from this f have "staged batch deleted" by (rule staged_fold)
      then have dd: "distinct (map fst deleted)" by (simp add: staged_def)
      have wf': "store_wf n pfx (datastore ?s')"
        unfolding d' using wf by (rule store_wf_filter)
      have len': "length (cache ?s') \<le> cacheSize ?s'"
        unfolding c' size using len by (rule length_fold_clear_expired)
      have cwf': "cache_wf n pfx (cache ?s')"
        unfolding c' using cwf by (rule cache_wf_fold_clear_expired)
      have "in_step (datastore ?s') entry" if mem: "entry \<in> set (cache ?s')" for entry
      proof -
        obtain ck provs' where entry: "entry = (ck, provs')" by (cases entry)
        from mem cwf' obtain c where c: "wf_cid n c" and ck: "ck = pfx @ ''/'' @ c"
          by (auto simp: cache_wf_def entry)
        from cwf' have "distinct (map fst (cache ?s'))" by (simp add: cache_wf_def)
        from this mem [unfolded entry ck]
        have m': "map_of (cache ?s') (pfx @ ''/'' @ c) = Some provs'"
          by (rule map_of_is_SomeI)
        note m = map_of_fold_clear_expired [OF len dd, of pfx c, folded c',
            unfolded makeProviderKey_text]
        have "\<exists>provs. map_of (cache s) (pfx @ ''/'' @ c) = Some provs
                \<and> provs' = fold AList.delete (deleted_peers deleted c) provs"
        proof (cases "map_of deleted c")
          case None
          with m m' show ?thesis by (simp add: deleted_peers_def)
        next
          case (Some peers)
          with m m' show ?thesis
            by (auto simp: deleted_peers_def split: option.splits if_splits)
        qed
        then obtain provs where old: "map_of (cache s) (pfx @ ''/'' @ c) = Some provs"
          and provs': "provs' = fold AList.delete (deleted_peers deleted c) provs" by blast
        from old have "(pfx @ ''/'' @ c, provs) \<in> set (cache s)" by (rule map_of_SomeD)
        with coh have "in_step ?ds (pfx @ ''/'' @ c, provs)" by (simp add: list_all_iff)
        from sweep_in_step [OF wf pfx c f this] show ?thesis
          by (simp only: entry ck provs' d')
      qed
      then have "coherent ?s'" by (simp add: coherent_def list_all_iff)
      with wf' len' cwf' clk' show ?thesis by (simp add: registry_inv_def)
    qed
  qed
qed

lemma step_inv:
  assumes inv: "registry_inv n pfx s" and pfx: "length (split_on (CHR ''/'') pfx) = 3"
    and wf: "wf_operation n operation"
    and st: "step dec pfx operation s = (r, s')"
    and ok: "adds_completed [operation] [r]"
  shows "registry_inv n pfx s'"
proof (cases operation)
  case (AddProvider cid peer)
  obtain r0 where add: "addProvider pfx cid peer s = (r0, s')" and r: "r = map_sum id (\<lambda>u. Done) r0"
    using st by (auto simp: step_def AddProvider split: prod.splits)
  from ok r obtain u where "r0 = Inr u" by (cases r0) (simp_all add: AddProvider)
  with add have "addProvider pfx cid peer s = (Inr u, s')" by simp
  with inv wf pfx show ?thesis
    by (intro addProvider_inv [of n pfx s cid peer u s']) (simp_all add: AddProvider)
next
  case (GetProviders cid)
  from st have "s' = snd (getProviders dec pfx cid s)"
    by (auto simp: step_def GetProviders split: prod.splits)
  with inv wf show ?thesis by (simp add: GetProviders getProviders_inv)
next
  case Cleanup
  from st have "s' = snd (cleanup pfx s)"
    by (auto simp: step_def Cleanup split: prod.splits)
  with inv pfx show ?thesis by (simp add: cleanup_inv)
qed

lemma run_inv:
  "registry_inv n pfx s \<Longrightarrow> length (split_on (CHR ''/'') pfx) = 3 \<Longrightarrow>
   list_all (wf_operation n) ops \<Longrightarrow> run dec pfx ops s = (rs, s') \<Longrightarrow> adds_completed ops rs \<Longrightarrow>
   registry_inv n pfx s'"
proof (induction ops arbitrary: s rs)
  case Nil
  then show ?case by simp
next
  case (Cons operation ops)
  obtain r s1 where st: "step dec pfx operation s = (r, s1)" by (cases "step dec pfx operation s")
  obtain rs1 where rest: "run dec pfx ops s1 = (rs1, s')" and rs: "rs = r # rs1"
    using Cons.prems(4) by (auto simp: st split: prod.splits)
  from Cons.prems(3) have wf: "wf_operation n operation" and wfs: "list_all (wf_operation n) ops"
    by simp_all
  from Cons.prems(5) have ok: "adds_completed [operation] [r]" and oks: "adds_completed ops rs1"
    unfolding rs by (cases operation; simp)+
  from Cons.prems(1,2) wf st ok have "registry_inv n pfx s1" by (rule step_inv)
  from this Cons.prems(2) wfs rest oks show ?case by (rule Cons.IH)
qed

text \<open>
  Coherence where nothing fails in \<open>addProvider\<close>: from an empty cache and a datastore
  whose keys have the shape that \<open>writeProviderEntry\<close> gives them, after any sequence
  of operations in which every \<open>addProvider\<close> completed, every cached map is in step
  with the datastore. Sweeps and lookups may fail.
\<close>

lemma cache_coherence:
  assumes pfx: "length (split_on (CHR ''/'') pfx) = 3"
    and store: "store_wf n pfx (datastore s0)"
    and empty: "cache s0 = []"
    and clk: "\<forall>i. clock s0 i \<le> 8640000000000000"
    and ops: "list_all (wf_operation n) ops"
    and run: "run dec pfx ops s0 = (rs, s)"
    and adds: "adds_completed ops rs"
  shows "coherent s"
proof -
  have "registry_inv n pfx s0"
    using store empty clk by (simp add: registry_inv_def cache_wf_def coherent_def)
  from this pfx ops run adds have "registry_inv n pfx s" by (rule run_inv)
  then show ?thesis by (simp add: registry_inv_def)
qed



lemma cache_coherence_example:
  "length (split_on (CHR ''/'') dht) = 3
   \<and> store_wf 2 dht (datastore coherence_registry)
   \<and> cache coherence_registry = []
   \<and> (\<forall>i. clock coherence_registry i \<le> 8640000000000000)
   \<and> list_all (wf_operation 2) coherence_example
   \<and> adds_completed coherence_example (fst (run example_decoder dht coherence_example coherence_registry))
   \<and> datastore (snd (run example_decoder dht coherence_example coherence_registry))
       = [(''/dht/provider/ca/p2'', [160, 31]), (''/dht/provider/cb/p1'', [136, 39])]
   \<and> cache (snd (run example_decoder dht coherence_example coherence_registry))
       = [(''/dht/provider/ca'', [(''p2'', Date (Some 4000))]),
          (''/dht/provider/cb'', [(''p1'', Date (Some 5000))])]
   \<and> coherent (snd (run example_decoder dht coherence_example coherence_registry))"
proof -
  let ?s0 = "coherence_registry"
  have pfx: "length (split_on (CHR ''/'') dht) = 3" by (simp add: dht_def)
  have store: "store_wf 2 dht (datastore ?s0)"
    by (simp add: store_wf_def coherence_registry_def registry_def Providers_new_def)
  have empty: "cache ?s0 = []" by (simp add: coherence_registry_def cache_registry)
  have clk: "\<forall>i. clock ?s0 i \<le> 8640000000000000"
  proof
    fix i
    have "1000 * min i 50 \<le> 1000 * (50::nat)" by simp
    then show "clock ?s0 i \<le> 8640000000000000"
      by (simp add: coherence_registry_def)
  qed
  have ops: "list_all (wf_operation 2) coherence_example"
    by (simp add: coherence_example_def wf_cid_def)
  have results: "fst (run example_decoder dht coherence_example ?s0)
                 = [Inr Done, Inr Done, Inr Done, Inr (Found [PeerId ''p1'', PeerId ''p2'']),
                    Inr Done, Inr Done]"
    by (simp add: coherence_example_def coherence_registry_def eval_defs)
  have adds: "adds_completed coherence_example (fst (run example_decoder dht coherence_example ?s0))"
    unfolding results by (simp add: coherence_example_def)
  have d: "datastore (snd (run example_decoder dht coherence_example ?s0))
       = [(''/dht/provider/ca/p2'', [160, 31]), (''/dht/provider/cb/p1'', [136, 39])]"
    by (simp add: coherence_example_def coherence_registry_def eval_defs)
  have c: "cache (snd (run example_decoder dht coherence_example ?s0))
       = [(''/dht/provider/ca'', [(''p2'', Date (Some 4000))]),
          (''/dht/provider/cb'', [(''p1'', Date (Some 5000))])]"
    by (simp add: coherence_example_def coherence_registry_def eval_defs)
  have run: "run example_decoder dht coherence_example ?s0
             = (fst (run example_decoder dht coherence_example ?s0), snd (run example_decoder dht coherence_example ?s0))"
    by simp
  have coh: "coherent (snd (run example_decoder dht coherence_example ?s0))"
    using pfx store empty clk ops run adds by (rule cache_coherence)
  show ?thesis
    by (intro conjI) (rule pfx, rule store, rule empty, rule clk, rule ops, rule adds, rule d,
        rule c, rule coh)
qed


end
